theory Spec2Isabelle
  imports Main "HOL-Library.Word" "HOL-Library.AList" "HOL-Library.Sublist"
begin

unbundle bit_operations_syntax

section \<open>Data model\<close>

text \<open>
  The crawler exists in two versions: the command with flags (\<open>src/unnamed/part_000\<close>,
  called the command below) and the earlier \<open>src/crawler.go\<close>. The command is modelled
  in full; of \<open>crawler.go\<close> the parts that differ are modelled beside it, under names
  starting with \<open>crawler_\<close>.

  \<open>crypto.BoxPubKey\<close> is \<open>[32]byte\<close>, a coordinate path is \<open>[]uint64\<close>, a Go
  \<open>error\<close> is \<open>None\<close> when it is \<open>nil\<close> and carries its message otherwise.
\<close>

type_synonym BoxPubKey = "8 word list"
type_synonym coords = "64 word list"
type_synonym error = "string option"

record attempt =
  NodeID :: string
  IPv6Addr :: string
  IPv6Subnet :: string
  Coords :: coords
  Found :: bool

text \<open>The zero value of \<open>attempt\<close>, which a Go map lookup returns for an absent key.\<close>

definition zero_attempt :: attempt where
  "zero_attempt = \<lparr>NodeID = [], IPv6Addr = [], IPv6Subnet = [], Coords = [], Found = False\<rparr>"

text \<open>
  \<open>yggdrasil.DHTEntry\<close> and \<open>yggdrasil.DHTRes\<close>, with the fields the crawler reads.
\<close>

record DHTEntry =
  PublicKey :: BoxPubKey
  entry_Coords :: coords

record DHTRes =
  res_Coords :: coords
  Infos :: "DHTEntry list"

definition zero_DHTRes :: DHTRes where
  "zero_DHTRes = \<lparr>res_Coords = [], Infos = []\<rparr>"

text \<open>
  The value \<open>json.Unmarshal\<close> stores into an \<open>interface{}\<close>; a number keeps its
  literal (\<open>float64\<close> is not modelled).
\<close>

datatype json =
    JNull
  | JBool bool
  | JNumber string
  | JString string
  | JArray "json list"
  | JObject "(string \<times> json) list"

type_synonym NodeInfoPayload = "8 word list"

subsection \<open>Go maps\<close>

text \<open>
  A Go map is an association list with distinct keys: \<open>m[k] = v\<close> is \<open>AList.update\<close>,
  \<open>len(m)\<close> is the length, \<open>range\<close> visits every entry once.
\<close>

definition map_index :: "'v \<Rightarrow> ('k \<times> 'v) list \<Rightarrow> 'k \<Rightarrow> 'v" where
  "map_index zero m k = (case map_of m k of None \<Rightarrow> zero | Some v \<Rightarrow> v)"

definition map_has :: "('k \<times> 'v) list \<Rightarrow> 'k \<Rightarrow> bool" where
  "map_has m k = (case map_of m k of None \<Rightarrow> False | Some v \<Rightarrow> True)"

definition len :: "'a list \<Rightarrow> int" where
  "len xs = int (length xs)"

subsection \<open>\<open>hex.EncodeToString\<close>\<close>

definition hextable :: string where
  "hextable = ''0123456789abcdef''"

fun hex_EncodeToString :: "8 word list \<Rightarrow> string" where
  "hex_EncodeToString [] = []"
| "hex_EncodeToString (b # bs) =
     hextable ! unat (drop_bit 4 b) # hextable ! unat (b AND 0x0f) # hex_EncodeToString bs"

section \<open>The retry loop\<close>

text \<open>
  The remote calls of \<open>yggdrasil.Core\<close> and \<open>time.Sleep\<close> are effects; a goroutine's
  effects are recorded in order.
\<close>

datatype remote = DHTPing BoxPubKey coords | GetNodeInfo BoxPubKey coords

datatype effect = Sleep "64 word" | Invoke remote

text \<open>
  \<open>rand.Intn(n)\<close> returns some number in \<open>[0, n)\<close>: the environment supplies the
  entropy.
\<close>

definition rand_Intn :: "nat \<Rightarrow> nat \<Rightarrow> nat" where
  "rand_Intn n e = e mod n"

text \<open>
  Go's \<open>int\<close> has 32 or 64 bits, by the target the program is built for
  (\<open>strconv.IntSize\<close>); its arithmetic wraps, and a shift by its size or more gives 0.
  \<open>go_int bits x\<close> is the \<open>int\<close> that holds the low \<open>bits\<close> bits of \<open>x\<close>.
\<close>

definition go_int :: "nat \<Rightarrow> int \<Rightarrow> int" where
  "go_int bits x = signed_take_bit (bits - 1) x"

text \<open>
  \<open>time.Millisecond * time.Duration(r * (1 << idx))\<close> in nanoseconds: the shift and
  the product with \<open>r\<close> are computed in \<open>int\<close>; \<open>time.Duration\<close> is \<open>int64\<close>, the
  conversion keeps the value, and the product with \<open>time.Millisecond\<close> wraps in 64 bits.
\<close>

definition Millisecond :: "64 word" where
  "Millisecond = 1000000"

definition backoff :: "nat \<Rightarrow> nat \<Rightarrow> nat \<Rightarrow> 64 word" where
  "backoff bits r idx = Millisecond * word_of_int (go_int bits (int r * go_int bits (push_bit idx 1)))"

text \<open>
  \<^verbatim>\<open>for idx := 0; idx < retryCount; idx++ { time.Sleep(...); res, err = call(); if err == nil { break } }\<close>
  \<open>reply i\<close> is what the remote call returns at attempt \<open>i\<close>: a result and an error,
  both assigned. \<open>cur\<close> holds \<open>res\<close> and \<open>err\<close>, \<open>tr\<close> the effects so far.
\<close>

function retry ::
  "nat \<Rightarrow> int \<Rightarrow> remote \<Rightarrow> (nat \<Rightarrow> nat) \<Rightarrow> (nat \<Rightarrow> 'r \<times> error) \<Rightarrow> nat \<Rightarrow> 'r \<times> error \<Rightarrow> effect list
    \<Rightarrow> ('r \<times> error) \<times> effect list" where
  "retry bits n call entropy reply idx cur tr =
     (if int idx < n then
        (let tr' = tr @ [Sleep (backoff bits (rand_Intn 1000 (entropy idx)) idx), Invoke call];
             r = reply idx
         in if snd r = None then (r, tr') else retry bits n call entropy reply (Suc idx) r tr')
      else (cur, tr))"
  by pat_completeness auto
termination
  by (relation "measure (\<lambda>(bits, n, call, entropy, reply, idx, cur, tr). nat (n - int idx))") auto

declare retry.simps [simp del]


section \<open>The node, its goroutines and the scheduler\<close>

text \<open>
  What the program takes from outside: the \<open>-retry\<close> flag (\<open>const retryCount = 5\<close> in
  \<open>crawler.go\<close>), the \<open>-file\<close> flag, the node's own key and coordinates
  (\<open>n.core.EncryptionPublicKey()\<close> decoded, \<open>n.core.Coords()\<close>), the display strings
  derived from a key (\<open>crypto.GetNodeID\<close>, \<open>address.AddrForNodeID\<close>,
  \<open>address.SubnetForNodeID\<close>), \<open>json.Unmarshal\<close> into an \<open>interface{}\<close>, and the
  size of \<open>int\<close> on the target, 32 or 64.
\<close>

record config =
  IntSize :: nat
  retryCount :: int
  filename :: string
  self_key :: BoxPubKey
  self_coords :: coords
  NodeID_String :: "BoxPubKey \<Rightarrow> string"
  Addr_String :: "BoxPubKey \<Rightarrow> string"
  Subnet_String :: "BoxPubKey \<Rightarrow> string"
  json_Unmarshal :: "NodeInfoPayload \<Rightarrow> string + json"

text \<open>
  The fields of \<open>node\<close> the crawl uses. A \<open>sync.WaitGroup\<close> is its counter; a
  \<open>sync.RWMutex\<close> is \<open>True\<close> while it is locked for writing (a read section is one
  step of the scheduler, so no reader count is kept).
\<close>

record node =
  dhtWaitGroup :: int
  dhtVisited :: "(string \<times> attempt) list"
  dhtMutex :: bool
  nodeInfoWaitGroup :: int
  nodeInfoVisited :: "(string \<times> json) list"
  nodeInfoMutex :: bool

datatype wait_group = dhtWG | nodeInfoWG

datatype mutex = dhtMu | nodeInfoMu

datatype call = main | dhtPing BoxPubKey coords | nodeInfo BoxPubKey coords

text \<open>
  The statements that touch the wait groups, the mutexes and the scheduler. After its last
  branch a function's remaining statements are a fixed list of these.
\<close>

datatype action =
    WG_Add wait_group
  | Go call
  | WG_Wait wait_group
  | Lock mutex
  | Unlock mutex
  | WG_Done wait_group
  | Aggregate

text \<open>
  Where a goroutine stands: before the dedup check of \<open>dhtPing\<close>, before its retry
  loop, before its record update (holding \<open>res\<close> and \<open>err\<close>); the same for
  \<open>nodeInfo\<close>; or before a list of remaining actions (\<open>Acts []\<close>: returned).
\<close>

datatype pc =
    D_Dedup
  | D_Retry
  | D_Update DHTRes error
  | N_Dedup
  | N_Retry
  | N_Store NodeInfoPayload
  | Acts "action list"

record goroutine =
  func :: call
  pc :: pc
  effects :: "effect list"

record results_Meta =
  NodesAttempted :: int
  NodesSuccessful :: int
  NodesFailed :: int
  NodeInfoSuccessful :: int
  NodeInfoFailed :: int

text \<open>The \<open>results\<close> document; the two time fields are not modelled.\<close>

record results =
  Meta :: results_Meta
  Topology :: "(string \<times> attempt) list"
  NodeInfo :: "(string \<times> json) list"

text \<open>
  What one call prints on standard output: \<open>fmt.Println()\<close>, \<open>fmt.Println(text)\<close>,
  \<open>fmt.Println(n, text)\<close> and \<open>fmt.Println(text, value)\<close>, each a line; and
  \<open>fmt.Printf(format, args...)\<close>, which ends no line unless its format does.
\<close>

datatype printed =
    Blank
  | Text string
  | Count int string
  | Labelled string string
  | Printf string "string list"

record state =
  node :: node
  goroutines :: "goroutine list"
  stdout :: "printed list"
  written :: "results option"
  panicked :: bool

text \<open>
  One step of the scheduler: the goroutine \<open>tid\<close> runs until its next step boundary.
  The event carries what the outside world answers during that step: the entropy of
  \<open>rand.Intn\<close>, the replies of the remote calls at each attempt, the error of
  \<open>ioutil.WriteFile\<close>.
\<close>

record event =
  tid :: nat
  entropy :: "nat \<Rightarrow> nat"
  DHTPing_reply :: "nat \<Rightarrow> DHTRes \<times> error"
  GetNodeInfo_reply :: "nat \<Rightarrow> NodeInfoPayload \<times> error"
  WriteFile_err :: error

subsection \<open>\<open>dhtPing\<close>\<close>

text \<open>Lines 221-226: the dedup check, under the read lock.\<close>

definition dhtPing_dedup :: "node \<Rightarrow> BoxPubKey \<Rightarrow> bool" where
  "dhtPing_dedup n pubkey =
     Found (map_index zero_attempt (dhtVisited n) (hex_EncodeToString pubkey))"

text \<open>Lines 230-244: the retry loop around \<open>n.core.DHTPing\<close>.\<close>

definition dhtPing_retry :: "config \<Rightarrow> event \<Rightarrow> BoxPubKey \<Rightarrow> coords \<Rightarrow> (DHTRes \<times> error) \<times> effect list" where
  "dhtPing_retry cfg ev pubkey coords =
     retry (IntSize cfg) (retryCount cfg) (DHTPing pubkey coords) (entropy ev) (DHTPing_reply ev) 0
       (zero_DHTRes, None) []"

text \<open>Lines 247-253: the new record.\<close>

definition dhtPing_info :: "config \<Rightarrow> BoxPubKey \<Rightarrow> coords \<Rightarrow> error \<Rightarrow> attempt" where
  "dhtPing_info cfg pubkey coords err =
     \<lparr>NodeID = NodeID_String cfg pubkey, IPv6Addr = Addr_String cfg pubkey,
      IPv6Subnet = Subnet_String cfg pubkey, Coords = coords, Found = (err = None)\<rparr>"

text \<open>Lines 258-261: \<open>oldInfo := n.dhtVisited[key]\<close> and the conditional write.\<close>

definition dhtPing_write :: "string \<Rightarrow> attempt \<Rightarrow> (string \<times> attempt) list \<Rightarrow> (string \<times> attempt) list" where
  "dhtPing_write key info visited =
     (let oldInfo = map_index zero_attempt visited key
      in if Found info \<or> \<not> Found oldInfo then AList.update key info visited else visited)"

text \<open>
  Lines 263-278 and the deferred calls, which run last in first out: the mutex is
  unlocked, then the wait group is notified.
\<close>

definition dhtPing_rest :: "attempt \<Rightarrow> attempt \<Rightarrow> BoxPubKey \<Rightarrow> coords \<Rightarrow> DHTRes \<Rightarrow> action list" where
  "dhtPing_rest oldInfo info pubkey coords res =
     (if \<not> Found oldInfo \<and> Found info
      then [WG_Add nodeInfoWG, Go (nodeInfo pubkey coords)] @
           concat (map (\<lambda>i. [WG_Add dhtWG, Go (dhtPing (PublicKey i) (entry_Coords i))]) (Infos res))
      else []) @
     [Unlock dhtMu, WG_Done dhtWG]"

subsection \<open>\<open>nodeInfo\<close>\<close>

text \<open>Lines 286-292: the dedup check.\<close>

definition nodeInfo_dedup :: "node \<Rightarrow> BoxPubKey \<Rightarrow> bool" where
  "nodeInfo_dedup n pubkey = map_has (nodeInfoVisited n) (hex_EncodeToString pubkey)"

text \<open>Lines 295-303: the retry loop around \<open>n.core.GetNodeInfo\<close>.\<close>

definition nodeInfo_retry :: "config \<Rightarrow> event \<Rightarrow> BoxPubKey \<Rightarrow> coords \<Rightarrow> (NodeInfoPayload \<times> error) \<times> effect list" where
  "nodeInfo_retry cfg ev pubkey coords =
     retry (IntSize cfg) (retryCount cfg) (GetNodeInfo pubkey coords) (entropy ev) (GetNodeInfo_reply ev) 0
       ([], None) []"

text \<open>Lines 313-318: unmarshal, then print the error or store the value.\<close>

definition nodeInfo_store :: "config \<Rightarrow> BoxPubKey \<Rightarrow> NodeInfoPayload \<Rightarrow> state \<Rightarrow> state" where
  "nodeInfo_store cfg pubkey res s =
     (case json_Unmarshal cfg res of
        Inl err \<Rightarrow> s\<lparr>stdout := stdout s @ [Text err]\<rparr>
      | Inr j \<Rightarrow> s\<lparr>node := (node s)\<lparr>nodeInfoVisited :=
                   AList.update (hex_EncodeToString pubkey) j (nodeInfoVisited (node s))\<rparr>\<rparr>)"

subsection \<open>\<open>main\<close>\<close>

text \<open>Lines 167-173: the two counts of the discovery map.\<close>

definition count_found :: "(string \<times> attempt) list \<Rightarrow> int" where
  "count_found visited = fold (\<lambda>(k, a) found. if Found a then found + 1 else found) visited 0"

text \<open>Lines 175-185.\<close>

definition make_results :: "node \<Rightarrow> results" where
  "make_results n =
     (let attempted = len (dhtVisited n);
          found = count_found (dhtVisited n)
      in \<lparr>Meta = \<lparr>NodesAttempted = attempted,
                  NodesSuccessful = found,
                  NodesFailed = attempted - found,
                  NodeInfoSuccessful = len (nodeInfoVisited n),
                  NodeInfoFailed = found - len (nodeInfoVisited n)\<rparr>,
          Topology = dhtVisited n,
          NodeInfo = nodeInfoVisited n\<rparr>)"

text \<open>Lines 197-203: the summary.\<close>

definition summary :: "results \<Rightarrow> printed list" where
  "summary res =
     [Blank,
      Count (NodesAttempted (Meta res)) ''nodes were processed'',
      Count (NodesSuccessful (Meta res)) ''nodes were found'',
      Count (NodesFailed (Meta res)) ''nodes were not found'',
      Blank,
      Count (NodesSuccessful (Meta res)) ''nodes responded with nodeinfo'',
      Count (NodesFailed (Meta res)) ''nodes did not respond with nodeinfo'']"

text \<open>
  Lines 164-203, after both mutexes are locked. The results are marshalled and written
  to the file; \<open>ioutil.WriteFile\<close> may fail, and the message printed then ends no
  line: the first \<open>fmt.Println()\<close> of the summary ends it. The values marshalled are strings,
  numbers and what \<open>json.Unmarshal\<close> produced, for which \<open>json.MarshalIndent\<close> returns
  no error: its error branch is not modelled. The line with the elapsed time is printed
  without the time.
\<close>

definition aggregate :: "config \<Rightarrow> event \<Rightarrow> state \<Rightarrow> state" where
  "aggregate cfg ev s =
     (let res = make_results (node s);
          out = stdout s @ [Blank, Text ''The crawl took'']
      in case WriteFile_err ev of
           None \<Rightarrow> s\<lparr>written := Some res,
                      stdout := out @ [Labelled ''Results written to'' (filename cfg)] @ summary res\<rparr>
         | Some err \<Rightarrow> s\<lparr>stdout := out @ [Printf ''Failed to write %s: %v'' [filename cfg, err]] @ summary res\<rparr>)"

text \<open>
  Lines 149-162 and the aggregation: the statements of \<open>main\<close> from the start of the
  crawl.
\<close>

definition main_body :: "config \<Rightarrow> action list" where
  "main_body cfg =
     [WG_Add dhtWG, Go (dhtPing (self_key cfg) (self_coords cfg)),
      WG_Wait dhtWG, WG_Wait nodeInfoWG, Lock dhtMu, Lock nodeInfoMu, Aggregate]"

subsection \<open>The scheduler\<close>

definition counter :: "wait_group \<Rightarrow> node \<Rightarrow> int" where
  "counter w n = (case w of dhtWG \<Rightarrow> dhtWaitGroup n | nodeInfoWG \<Rightarrow> nodeInfoWaitGroup n)"

definition set_counter :: "wait_group \<Rightarrow> int \<Rightarrow> node \<Rightarrow> node" where
  "set_counter w c n = (case w of dhtWG \<Rightarrow> n\<lparr>dhtWaitGroup := c\<rparr> | nodeInfoWG \<Rightarrow> n\<lparr>nodeInfoWaitGroup := c\<rparr>)"

definition locked :: "mutex \<Rightarrow> node \<Rightarrow> bool" where
  "locked m n = (case m of dhtMu \<Rightarrow> dhtMutex n | nodeInfoMu \<Rightarrow> nodeInfoMutex n)"

definition set_locked :: "mutex \<Rightarrow> bool \<Rightarrow> node \<Rightarrow> node" where
  "set_locked m b n = (case m of dhtMu \<Rightarrow> n\<lparr>dhtMutex := b\<rparr> | nodeInfoMu \<Rightarrow> n\<lparr>nodeInfoMutex := b\<rparr>)"

text \<open>A goroutine starts at the head of its function.\<close>

definition spawn :: "call \<Rightarrow> goroutine" where
  "spawn c =
     \<lparr>func = c,
      pc = (case c of main \<Rightarrow> Acts [] | dhtPing pubkey coords \<Rightarrow> D_Dedup | nodeInfo pubkey coords \<Rightarrow> N_Dedup),
      effects = []\<rparr>"

text \<open>
  One action. \<open>None\<close>: the goroutine is blocked (a \<open>Wait\<close> on a counter that is not
  zero, a \<open>Lock\<close> on a locked mutex). A counter that goes negative and an \<open>Unlock\<close>
  of an unlocked mutex stop the program.
\<close>

fun do_action :: "config \<Rightarrow> event \<Rightarrow> action \<Rightarrow> state \<Rightarrow> state option" where
  "do_action cfg ev (WG_Add w) s =
     Some (s\<lparr>node := set_counter w (counter w (node s) + 1) (node s)\<rparr>)"
| "do_action cfg ev (Go c) s =
     Some (s\<lparr>goroutines := goroutines s @ [spawn c]\<rparr>)"
| "do_action cfg ev (WG_Wait w) s =
     (if counter w (node s) = 0 then Some s else None)"
| "do_action cfg ev (Lock m) s =
     (if locked m (node s) then None else Some (s\<lparr>node := set_locked m True (node s)\<rparr>))"
| "do_action cfg ev (Unlock m) s =
     (if locked m (node s) then Some (s\<lparr>node := set_locked m False (node s)\<rparr>)
      else Some (s\<lparr>panicked := True\<rparr>))"
| "do_action cfg ev (WG_Done w) s =
     (if counter w (node s) - 1 < 0 then Some (s\<lparr>panicked := True\<rparr>)
      else Some (s\<lparr>node := set_counter w (counter w (node s) - 1) (node s)\<rparr>))"
| "do_action cfg ev Aggregate s = Some (aggregate cfg ev s)"

definition set_pc :: "nat \<Rightarrow> pc \<Rightarrow> state \<Rightarrow> state" where
  "set_pc t p s = s\<lparr>goroutines := (goroutines s)[t := (goroutines s ! t)\<lparr>pc := p\<rparr>]\<rparr>"

definition add_effects :: "nat \<Rightarrow> effect list \<Rightarrow> state \<Rightarrow> state" where
  "add_effects t tr s =
     s\<lparr>goroutines := (goroutines s)[t := (goroutines s ! t)\<lparr>effects := effects (goroutines s ! t) @ tr\<rparr>]\<rparr>"

text \<open>The step of a goroutine running \<open>dhtPing(pubkey, coords)\<close>.\<close>

definition step_dhtPing :: "config \<Rightarrow> event \<Rightarrow> BoxPubKey \<Rightarrow> coords \<Rightarrow> pc \<Rightarrow> state \<Rightarrow> state" where
  "step_dhtPing cfg ev pubkey coords p s =
     (case p of
        D_Dedup \<Rightarrow>
          if dhtMutex (node s) then s
          else if dhtPing_dedup (node s) pubkey then set_pc (tid ev) (Acts [WG_Done dhtWG]) s
          else set_pc (tid ev) D_Retry s
      | D_Retry \<Rightarrow>
          (let (r, tr) = dhtPing_retry cfg ev pubkey coords
           in set_pc (tid ev) (D_Update (fst r) (snd r)) (add_effects (tid ev) tr s))
      | D_Update res err \<Rightarrow>
          if dhtMutex (node s) then s
          else
            (let key = hex_EncodeToString pubkey;
                 info = dhtPing_info cfg pubkey coords err;
                 oldInfo = map_index zero_attempt (dhtVisited (node s)) key
             in set_pc (tid ev) (Acts (dhtPing_rest oldInfo info pubkey coords res))
                  (s\<lparr>node := (node s)\<lparr>dhtMutex := True,
                        dhtVisited := dhtPing_write key info (dhtVisited (node s))\<rparr>\<rparr>))
      | _ \<Rightarrow> s)"

text \<open>The step of a goroutine running \<open>nodeInfo(pubkey, coords)\<close>.\<close>

definition step_nodeInfo :: "config \<Rightarrow> event \<Rightarrow> BoxPubKey \<Rightarrow> coords \<Rightarrow> pc \<Rightarrow> state \<Rightarrow> state" where
  "step_nodeInfo cfg ev pubkey coords p s =
     (case p of
        N_Dedup \<Rightarrow>
          if nodeInfoMutex (node s) then s
          else if nodeInfo_dedup (node s) pubkey then set_pc (tid ev) (Acts [WG_Done nodeInfoWG]) s
          else set_pc (tid ev) N_Retry s
      | N_Retry \<Rightarrow>
          (let (r, tr) = nodeInfo_retry cfg ev pubkey coords
           in if snd r \<noteq> None
              then set_pc (tid ev) (Acts [WG_Done nodeInfoWG]) (add_effects (tid ev) tr s)
              else set_pc (tid ev) (N_Store (fst r)) (add_effects (tid ev) tr s))
      | N_Store res \<Rightarrow>
          if nodeInfoMutex (node s) then s
          else set_pc (tid ev) (Acts [Unlock nodeInfoMu, WG_Done nodeInfoWG])
                 (nodeInfo_store cfg pubkey res
                    (s\<lparr>node := (node s)\<lparr>nodeInfoMutex := True\<rparr>\<rparr>))
      | _ \<Rightarrow> s)"

text \<open>
  The step of the scheduler. A step that cannot be taken (no such goroutine, a returned
  or blocked goroutine, a stopped program) leaves the state as it is.
\<close>

definition step :: "config \<Rightarrow> event \<Rightarrow> state \<Rightarrow> state" where
  "step cfg ev s =
     (if panicked s \<or> tid ev \<ge> length (goroutines s) then s
      else
        (let g = goroutines s ! tid ev
         in case pc g of
              Acts [] \<Rightarrow> s
            | Acts (a # as) \<Rightarrow>
                (case do_action cfg ev a s of
                   None \<Rightarrow> s
                 | Some s' \<Rightarrow> set_pc (tid ev) (Acts as) s')
            | p \<Rightarrow>
                (case func g of
                   dhtPing pubkey coords \<Rightarrow> step_dhtPing cfg ev pubkey coords p s
                 | nodeInfo pubkey coords \<Rightarrow> step_nodeInfo cfg ev pubkey coords p s
                 | main \<Rightarrow> s)))"

fun exec :: "config \<Rightarrow> event list \<Rightarrow> state \<Rightarrow> state" where
  "exec cfg [] s = s"
| "exec cfg (ev # evs) s = exec cfg evs (step cfg ev s)"

text \<open>The state when the crawl starts: empty maps, \<open>main\<close> the only goroutine.\<close>

definition init :: "config \<Rightarrow> state" where
  "init cfg =
     \<lparr>node = \<lparr>dhtWaitGroup = 0, dhtVisited = [], dhtMutex = False,
              nodeInfoWaitGroup = 0, nodeInfoVisited = [], nodeInfoMutex = False\<rparr>,
      goroutines = [\<lparr>func = main, pc = Acts (main_body cfg), effects = []\<rparr>],
      stdout = [],
      written = None,
      panicked = False\<rparr>"

section \<open>The earlier \<open>crawler.go\<close>\<close>

text \<open>
  \<open>crawler.go\<close> has the same goroutines, wait groups and mutexes. Its discovery map is
  keyed by the public key itself, its record holds two fields, its retry count is a
  constant, and \<open>nodeInfo\<close> is statement for statement the one above.
\<close>

record crawler_attempt =
  crawler_coords :: coords
  crawler_found :: bool

definition crawler_zero_attempt :: crawler_attempt where
  "crawler_zero_attempt = \<lparr>crawler_coords = [], crawler_found = False\<rparr>"

definition crawler_retryCount :: int where
  "crawler_retryCount = 5"

text \<open>Lines 124-129: the dedup check.\<close>

definition crawler_dhtPing_dedup :: "(BoxPubKey \<times> crawler_attempt) list \<Rightarrow> BoxPubKey \<Rightarrow> bool" where
  "crawler_dhtPing_dedup visited pubkey = crawler_found (map_index crawler_zero_attempt visited pubkey)"

text \<open>Lines 131-143: the retry loop.\<close>

definition crawler_dhtPing_retry :: "nat \<Rightarrow> event \<Rightarrow> BoxPubKey \<Rightarrow> coords \<Rightarrow> (DHTRes \<times> error) \<times> effect list" where
  "crawler_dhtPing_retry bits ev pubkey coords =
     retry bits crawler_retryCount (DHTPing pubkey coords) (entropy ev) (DHTPing_reply ev) 0
       (zero_DHTRes, None) []"

text \<open>Lines 145-148: the new record holds the coordinates of the response.\<close>

definition crawler_dhtPing_info :: "DHTRes \<Rightarrow> error \<Rightarrow> crawler_attempt" where
  "crawler_dhtPing_info res err = \<lparr>crawler_coords = res_Coords res, crawler_found = (err = None)\<rparr>"

text \<open>Lines 152-155: the conditional write.\<close>

definition crawler_dhtPing_write ::
  "BoxPubKey \<Rightarrow> crawler_attempt \<Rightarrow> (BoxPubKey \<times> crawler_attempt) list \<Rightarrow> (BoxPubKey \<times> crawler_attempt) list" where
  "crawler_dhtPing_write pubkey info visited =
     (let oldInfo = map_index crawler_zero_attempt visited pubkey
      in if crawler_found info \<or> \<not> crawler_found oldInfo then AList.update pubkey info visited else visited)"

text \<open>Lines 157-167 and the deferred calls.\<close>

definition crawler_dhtPing_rest ::
  "crawler_attempt \<Rightarrow> crawler_attempt \<Rightarrow> BoxPubKey \<Rightarrow> coords \<Rightarrow> DHTRes \<Rightarrow> action list" where
  "crawler_dhtPing_rest oldInfo info pubkey coords res =
     (if \<not> crawler_found oldInfo \<and> crawler_found info
      then [WG_Add nodeInfoWG, Go (nodeInfo pubkey coords)] @
           concat (map (\<lambda>i. [WG_Add dhtWG, Go (dhtPing (PublicKey i) (entry_Coords i))]) (Infos res))
      else []) @
     [Unlock dhtMu, WG_Done dhtWG]"

text \<open>Lines 95-105 and 113-118 of \<open>main\<close>: the counts and the summary.\<close>

record crawler_Meta =
  crawler_NodesSuccessful :: int
  crawler_NodesFailed :: int

definition crawler_count_found :: "(BoxPubKey \<times> crawler_attempt) list \<Rightarrow> int" where
  "crawler_count_found visited =
     fold (\<lambda>(k, a) found. if crawler_found a then found + 1 else found) visited 0"

definition crawler_make_meta :: "(BoxPubKey \<times> crawler_attempt) list \<Rightarrow> (string \<times> json) list \<Rightarrow> crawler_Meta" where
  "crawler_make_meta visited nodeinfo =
     (let found = crawler_count_found visited
      in \<lparr>crawler_NodesSuccessful = len nodeinfo,
          crawler_NodesFailed = found - len nodeinfo\<rparr>)"

definition crawler_summary :: "(BoxPubKey \<times> crawler_attempt) list \<Rightarrow> (string \<times> json) list \<Rightarrow> printed list" where
  "crawler_summary visited nodeinfo =
     (let attempted = len visited;
          found = crawler_count_found visited;
          meta = crawler_make_meta visited nodeinfo
      in [Count attempted ''nodes were processed'',
          Count found ''nodes were found'',
          Count (attempted - found) ''nodes were not found'',
          Blank,
          Count (crawler_NodesSuccessful meta) ''nodes responded with nodeinfo'',
          Count (crawler_NodesFailed meta) ''nodes did not respond with nodeinfo''])"

section \<open>One goroutine from its probe to its record\<close>

text \<open>
  The retry loop followed by the record update, as one goroutine runs them (lines
  230-261 of the command, 131-155 of \<open>crawler.go\<close>), on the discovery map as it is
  when the goroutine takes the lock.
\<close>

definition dhtPing_record ::
  "config \<Rightarrow> event \<Rightarrow> BoxPubKey \<Rightarrow> coords \<Rightarrow> (string \<times> attempt) list \<Rightarrow> (string \<times> attempt) list" where
  "dhtPing_record cfg ev pubkey coords visited =
     (let (r, tr) = dhtPing_retry cfg ev pubkey coords
      in dhtPing_write (hex_EncodeToString pubkey) (dhtPing_info cfg pubkey coords (snd r)) visited)"

definition crawler_dhtPing_record ::
  "nat \<Rightarrow> event \<Rightarrow> BoxPubKey \<Rightarrow> coords \<Rightarrow> (BoxPubKey \<times> crawler_attempt) list \<Rightarrow> (BoxPubKey \<times> crawler_attempt) list" where
  "crawler_dhtPing_record bits ev pubkey coords visited =
     (let (r, tr) = crawler_dhtPing_retry bits ev pubkey coords
      in crawler_dhtPing_write pubkey (crawler_dhtPing_info (fst r) (snd r)) visited)"

section \<open>Notions for the proofs\<close>

definition total :: "('a \<Rightarrow> 'b::comm_monoid_add) \<Rightarrow> 'a list \<Rightarrow> 'b" where
  "total f xs = sum_list (map f xs)"

definition wg_of :: "call \<Rightarrow> wait_group option" where
  "wg_of c = (case c of main \<Rightarrow> None | dhtPing p x \<Rightarrow> Some dhtWG | nodeInfo p x \<Rightarrow> Some nodeInfoWG)"

definition acts :: "goroutine \<Rightarrow> action list" where
  "acts g = (case pc g of Acts as \<Rightarrow> as | _ \<Rightarrow> [])"

definition running :: "wait_group \<Rightarrow> goroutine \<Rightarrow> bool" where
  "running w g = (wg_of (func g) = Some w \<and> pc g \<noteq> Acts [])"

definition spawning :: "wait_group \<Rightarrow> goroutine \<Rightarrow> bool" where
  "spawning w g = (case acts g of Go c # as \<Rightarrow> wg_of c = Some w | _ \<Rightarrow> False)"

definition owed :: "wait_group \<Rightarrow> goroutine \<Rightarrow> nat" where
  "owed w g = of_bool (running w g) + of_bool (spawning w g)"

definition outstanding :: "wait_group \<Rightarrow> state \<Rightarrow> nat" where
  "outstanding w s = total (owed w) (goroutines s)"

text \<open>Bookkeeping for the proofs.\<close>

definition is_Go_for :: "wait_group \<Rightarrow> action \<Rightarrow> bool" where
  "is_Go_for w a = (case a of Go c \<Rightarrow> wg_of c = Some w | _ \<Rightarrow> False)"

definition acts_weight :: "wait_group \<Rightarrow> action list \<Rightarrow> int" where
  "acts_weight w as =
     int (length (filter (is_Go_for w) as)) - int (count_list as (WG_Add w)) + int (count_list as (WG_Done w))"

definition weight :: "wait_group \<Rightarrow> goroutine \<Rightarrow> int" where
  "weight w g = (case pc g of Acts as \<Rightarrow> acts_weight w as | _ \<Rightarrow> of_bool (wg_of (func g) = Some w))"

definition holding :: "mutex \<Rightarrow> goroutine \<Rightarrow> nat" where
  "holding m g = count_list (acts g) (Unlock m)"

definition next_is_Go :: "action list \<Rightarrow> bool" where
  "next_is_Go as = (case as of Go c # as' \<Rightarrow> True | _ \<Rightarrow> False)"

fun ok_dht :: "action list \<Rightarrow> bool" where
  "ok_dht [] = True"
| "ok_dht (a # as) = (ok_dht as \<and> (case a of
      WG_Add w \<Rightarrow> (case as of Go c # as' \<Rightarrow> wg_of c = Some w | _ \<Rightarrow> False)
    | Go c \<Rightarrow> wg_of c \<noteq> None \<and> as \<noteq> [] \<and> \<not> next_is_Go as
    | Unlock m \<Rightarrow> m = dhtMu \<and> as = [WG_Done dhtWG]
    | WG_Done w \<Rightarrow> w = dhtWG \<and> as = []
    | _ \<Rightarrow> False))"

definition shape :: "config \<Rightarrow> goroutine \<Rightarrow> bool" where
  "shape cfg g = (case func g of
       main \<Rightarrow> (\<exists>as. pc g = Acts as \<and> suffix as (main_body cfg))
     | dhtPing p c \<Rightarrow> (case pc g of D_Dedup \<Rightarrow> True | D_Retry \<Rightarrow> True | D_Update r e \<Rightarrow> True
                        | Acts as \<Rightarrow> ok_dht as | _ \<Rightarrow> False)
     | nodeInfo p c \<Rightarrow> (case pc g of N_Dedup \<Rightarrow> True | N_Retry \<Rightarrow> True | N_Store r \<Rightarrow> True
                        | Acts as \<Rightarrow> as = [Unlock nodeInfoMu, WG_Done nodeInfoWG] \<or> as = [WG_Done nodeInfoWG] \<or> as = []
                        | _ \<Rightarrow> False))"

definition core :: "config \<Rightarrow> state \<Rightarrow> bool" where
  "core cfg s \<longleftrightarrow>
     \<not> panicked s \<and>
     goroutines s \<noteq> [] \<and>
     (\<forall>t < length (goroutines s). func (goroutines s ! t) = main \<longleftrightarrow> t = 0) \<and>
     (\<forall>g \<in> set (goroutines s). shape cfg g) \<and>
     (\<forall>w. counter w (node s) = total (weight w) (goroutines s)) \<and>
     (\<forall>m. total (holding m) (goroutines s) \<le> of_bool (locked m (node s)))"

definition inv :: "config \<Rightarrow> state \<Rightarrow> bool" where
  "inv cfg s \<longleftrightarrow>
     core cfg s \<and>
     (WG_Wait dhtWG \<notin> set (acts (goroutines s ! 0)) \<longrightarrow> dhtWaitGroup (node s) = 0) \<and>
     (WG_Wait nodeInfoWG \<notin> set (acts (goroutines s ! 0)) \<longrightarrow> nodeInfoWaitGroup (node s) = 0)"

definition is_fetch :: "string \<Rightarrow> goroutine \<Rightarrow> bool" where
  "is_fetch key g = (case func g of nodeInfo p c \<Rightarrow> hex_EncodeToString p = key | _ \<Rightarrow> False)"

definition is_Go_fetch :: "string \<Rightarrow> action \<Rightarrow> bool" where
  "is_Go_fetch key a = (case a of Go c \<Rightarrow> (case c of nodeInfo p x \<Rightarrow> hex_EncodeToString p = key | _ \<Rightarrow> False) | _ \<Rightarrow> False)"

definition fetches :: "string \<Rightarrow> goroutine \<Rightarrow> nat" where
  "fetches key g = of_bool (is_fetch key g) + length (filter (is_Go_fetch key) (acts g))"

definition found_in :: "state \<Rightarrow> string \<Rightarrow> bool" where
  "found_in s key = Found (map_index zero_attempt (dhtVisited (node s)) key)"

text \<open>
  \<open>paired as\<close>: in the list of actions every \<open>go\<close> statement stands directly after the
  \<open>Add(1)\<close> on the wait group of the function it starts, and every \<open>Add(1)\<close> stands
  directly before such a \<open>go\<close>.
\<close>

fun paired :: "action list \<Rightarrow> bool" where
  "paired [] = True"
| "paired (a # as) = (case a of
      WG_Add w \<Rightarrow> (case as of Go c # as' \<Rightarrow> wg_of c = Some w \<and> paired as' | _ \<Rightarrow> False)
    | Go c \<Rightarrow> False
    | _ \<Rightarrow> paired as)"

definition is_nodeInfo_of :: "BoxPubKey \<Rightarrow> goroutine \<Rightarrow> bool" where
  "is_nodeInfo_of pubkey g = (case func g of nodeInfo p c \<Rightarrow> p = pubkey | _ \<Rightarrow> False)"

definition returned :: "goroutine \<Rightarrow> bool" where
  "returned g = (pc g = Acts [])"

text \<open>
  When \<open>main\<close> has returned, the summary it printed and the results it wrote are those
  of the maps as they are; before, nothing is written.
\<close>

definition final :: "state \<Rightarrow> bool" where
  "final s \<longleftrightarrow>
     (returned (goroutines s ! 0) \<longrightarrow>
        (\<exists>out. stdout s = out @ summary (make_results (node s))) \<and>
        (written s = None \<or> written s = Some (make_results (node s)))) \<and>
     (\<not> returned (goroutines s ! 0) \<longrightarrow> written s = None)"

text \<open>What attempt \<open>i\<close> of the retry loop does before it looks at the error: it sleeps and calls.\<close>

definition attempt_effects :: "nat \<Rightarrow> remote \<Rightarrow> (nat \<Rightarrow> nat) \<Rightarrow> nat \<Rightarrow> effect list" where
  "attempt_effects bits c rnd i = [Sleep (backoff bits (rand_Intn 1000 (rnd i)) i), Invoke c]"

text \<open>The functions an action list starts, in order, and the actions that never block.\<close>

definition started :: "action list \<Rightarrow> call list" where
  "started as = concat (map (\<lambda>a. case a of Go c \<Rightarrow> [c] | _ \<Rightarrow> []) as)"

definition nonblocking :: "action \<Rightarrow> bool" where
  "nonblocking a = (case a of WG_Wait w \<Rightarrow> False | Lock m \<Rightarrow> False | Aggregate \<Rightarrow> False | _ \<Rightarrow> True)"

text \<open>
  Where a goroutine of \<open>dhtPing\<close> can be when the dedup check has sent it to its
  return: at the check, before the deferred \<open>Done\<close>, or returned. A goroutine at the
  head of its function has made no remote call.
\<close>

definition at_dedup_return :: "pc \<Rightarrow> bool" where
  "at_dedup_return p = (p = D_Dedup \<or> p = Acts [WG_Done dhtWG] \<or> p = Acts [])"

definition fresh :: "goroutine \<Rightarrow> bool" where
  "fresh g = ((pc g = D_Dedup \<or> pc g = N_Dedup) \<longrightarrow> effects g = [])"


text \<open>
  Every key of the metadata map was stored by a goroutine of \<open>nodeInfo\<close> for that key,
  which has passed its store.
\<close>

definition stored_by_fetch :: "state \<Rightarrow> bool" where
  "stored_by_fetch s \<longleftrightarrow>
     (\<forall>key. map_has (nodeInfoVisited (node s)) key \<longrightarrow>
        (\<exists>i < length (goroutines s). is_fetch key (goroutines s ! i) \<and> (\<exists>as. pc (goroutines s ! i) = Acts as)))"

section \<open>A small network for the examples\<close>

text \<open>
  A configuration for a 64-bit target with the default retry count, whose \<open>json.Unmarshal\<close> rejects the
  empty payload; an event in which every remote call succeeds at once, the discovery
  reply carrying the given rumours; and an event in which every remote call fails.
\<close>

definition demo_cfg :: config where
  "demo_cfg =
     \<lparr>IntSize = 64, retryCount = 5, filename = ''results.json'', self_key = [1], self_coords = [],
      NodeID_String = (\<lambda>k. ''id''), Addr_String = (\<lambda>k. ''addr''), Subnet_String = (\<lambda>k. ''subnet''),
      json_Unmarshal = (\<lambda>b. if b = [] then Inl ''unexpected end of JSON input'' else Inr JNull)\<rparr>"

definition ok_ev :: "nat \<Rightarrow> DHTEntry list \<Rightarrow> event" where
  "ok_ev t rumours =
     \<lparr>tid = t, entropy = (\<lambda>i. 0),
      DHTPing_reply = (\<lambda>i. (\<lparr>res_Coords = [7], Infos = rumours\<rparr>, None)),
      GetNodeInfo_reply = (\<lambda>i. ([123, 125], None)),
      WriteFile_err = None\<rparr>"

definition fail_ev :: "nat \<Rightarrow> event" where
  "fail_ev t =
     \<lparr>tid = t, entropy = (\<lambda>i. 999),
      DHTPing_reply = (\<lambda>i. (zero_DHTRes, Some ''timeout'')),
      GetNodeInfo_reply = (\<lambda>i. ([], Some ''timeout'')),
      WriteFile_err = None\<rparr>"

definition found_attempt :: "coords \<Rightarrow> attempt" where
  "found_attempt c = \<lparr>NodeID = ''id'', IPv6Addr = ''addr'', IPv6Subnet = ''subnet'', Coords = c, Found = True\<rparr>"

text \<open>
  A state in which the node \<open>01\<close> is confirmed while a second goroutine for it comes
  back from a probe that failed.
\<close>

definition late_failure :: state where
  "late_failure =
     \<lparr>node = \<lparr>dhtWaitGroup = 1, dhtVisited = [(''01'', found_attempt [])], dhtMutex = False,
              nodeInfoWaitGroup = 0, nodeInfoVisited = [], nodeInfoMutex = False\<rparr>,
      goroutines = [\<lparr>func = main, pc = Acts [WG_Wait dhtWG, WG_Wait nodeInfoWG, Lock dhtMu, Lock nodeInfoMu, Aggregate], effects = []\<rparr>,
                    \<lparr>func = dhtPing [1] [5], pc = D_Update zero_DHTRes (Some ''timeout''), effects = []\<rparr>],
      stdout = [],
      written = None,
      panicked = False\<rparr>"

text \<open>
  A run: \<open>main\<close> starts the crawl, the seed's probe succeeds with no rumours, its record
  is written and its metadata fetch is scheduled.
\<close>

definition seed_found :: "event list" where
  "seed_found = map (\<lambda>t. ok_ev t []) [0, 0, 1, 1, 1, 1, 1]"

text \<open>The run to its end: the two goroutines finish and \<open>main\<close> writes the results.\<close>

definition whole_run :: "event list" where
  "whole_run = map (\<lambda>t. ok_ev t []) [0, 0, 1, 1, 1, 1, 1, 1, 1, 2, 2, 2, 2, 2, 0, 0, 0, 0, 0]"

text \<open>The same run, except that every metadata request of the seed fails.\<close>

definition run_without_metadata :: "event list" where
  "run_without_metadata =
     map (\<lambda>t. ok_ev t []) [0, 0, 1, 1, 1, 1, 1, 1, 1, 2] @ [fail_ev 2] @
     map (\<lambda>t. ok_ev t []) [2, 0, 0, 0, 0, 0]"

text \<open>
  A run up to the record update of the seed, whose probe succeeded with one rumour; and a
  run up to the record update of the seed, all of whose probes failed.
\<close>

definition rumour :: DHTEntry where
  "rumour = \<lparr>PublicKey = [2], entry_Coords = [3]\<rparr>"

definition seed_probed :: "event list" where
  "seed_probed = map (\<lambda>t. ok_ev t [rumour]) [0, 0, 1, 1]"

definition seed_failed :: "event list" where
  "seed_failed = map (\<lambda>t. ok_ev t []) [0, 0, 1] @ [fail_ev 1]"


text \<open>
  A run in which the seed's probe succeeds and the response names the seed itself, with
  other coordinates: the seed is confirmed, and a second goroutine for it is started.
\<close>

definition echo :: DHTEntry where
  "echo = \<lparr>PublicKey = [1], entry_Coords = [9]\<rparr>"

definition seed_echoed :: "event list" where
  "seed_echoed = map (\<lambda>t. ok_ev t [echo]) [0, 0, 1, 1, 1, 1, 1, 1, 1, 1, 1]"

text \<open>
  A run up to the retry loop of the seed's metadata fetch; and an event in which the
  metadata request is answered with an empty payload, which \<open>json.Unmarshal\<close> rejects.
\<close>

definition seed_fetching :: "event list" where
  "seed_fetching = map (\<lambda>t. ok_ev t []) [0, 0, 1, 1, 1, 1, 1, 1, 1, 2]"

definition blank_ev :: "nat \<Rightarrow> event" where
  "blank_ev t =
     \<lparr>tid = t, entropy = (\<lambda>i. 0),
      DHTPing_reply = (\<lambda>i. (\<lparr>res_Coords = [7], Infos = []\<rparr>, None)),
      GetNodeInfo_reply = (\<lambda>i. ([], None)),
      WriteFile_err = None\<rparr>"

section \<open>Lemmas\<close>

lemma total_append [simp]: "total f (xs @ ys) = total f xs + total f ys"
  by (simp add: total_def)

lemma total_Nil [simp]: "total f [] = 0"
  by (simp add: total_def)

lemma total_Cons [simp]: "total f (x # xs) = f x + total f xs"
  by (simp add: total_def)

lemma total_update: "t < length xs \<Longrightarrow> total f (xs[t := y]) + f (xs ! t) = total f xs + f y"
proof (induction xs arbitrary: t)
  case Nil
  then show ?case by simp
next
  case (Cons x xs)
  show ?case
  proof (cases t)
    case 0
    then show ?thesis by (simp add: ac_simps)
  next
    case (Suc n)
    with Cons.prems have "n < length xs" by simp
    from Cons.IH[OF this] have "f x + (total f (xs[n := y]) + f (xs ! n)) = f x + (total f xs + f y)"
      by simp
    with Suc show ?thesis by (simp add: add.assoc)
  qed
qed

lemma total_ge: "t < length xs \<Longrightarrow> (f (xs ! t) :: nat) \<le> total f xs"
proof (induction xs arbitrary: t)
  case Nil
  then show ?case by simp
next
  case (Cons x xs)
  then show ?case by (cases t) (simp_all add: trans_le_add2)
qed

lemma total_zero: "total f xs = (0::nat) \<Longrightarrow> x \<in> set xs \<Longrightarrow> f x = 0"
  by (induction xs) auto

text \<open>Case analysis of one scheduler step.\<close>

lemma step_cases [consumes 1, case_names stutter d_hit d_miss d_retry d_update n_hit n_miss n_fail n_ok n_store act]:
  assumes "step cfg ev s = s'"
  obtains
    "s' = s"
  | p c where "\<not> panicked s" "tid ev < length (goroutines s)" "func (goroutines s ! tid ev) = dhtPing p c"
      "pc (goroutines s ! tid ev) = D_Dedup" "\<not> dhtMutex (node s)" "dhtPing_dedup (node s) p"
      "s' = set_pc (tid ev) (Acts [WG_Done dhtWG]) s"
  | p c where "\<not> panicked s" "tid ev < length (goroutines s)" "func (goroutines s ! tid ev) = dhtPing p c"
      "pc (goroutines s ! tid ev) = D_Dedup" "\<not> dhtMutex (node s)" "\<not> dhtPing_dedup (node s) p"
      "s' = set_pc (tid ev) D_Retry s"
  | p c where "\<not> panicked s" "tid ev < length (goroutines s)" "func (goroutines s ! tid ev) = dhtPing p c"
      "pc (goroutines s ! tid ev) = D_Retry"
      "s' = set_pc (tid ev) (D_Update (fst (fst (dhtPing_retry cfg ev p c))) (snd (fst (dhtPing_retry cfg ev p c))))
              (add_effects (tid ev) (snd (dhtPing_retry cfg ev p c)) s)"
  | p c res err where "\<not> panicked s" "tid ev < length (goroutines s)" "func (goroutines s ! tid ev) = dhtPing p c"
      "pc (goroutines s ! tid ev) = D_Update res err" "\<not> dhtMutex (node s)"
      "s' = set_pc (tid ev)
              (Acts (dhtPing_rest (map_index zero_attempt (dhtVisited (node s)) (hex_EncodeToString p))
                       (dhtPing_info cfg p c err) p c res))
              (s\<lparr>node := (node s)\<lparr>dhtMutex := True,
                     dhtVisited := dhtPing_write (hex_EncodeToString p) (dhtPing_info cfg p c err) (dhtVisited (node s))\<rparr>\<rparr>)"
  | p c where "\<not> panicked s" "tid ev < length (goroutines s)" "func (goroutines s ! tid ev) = nodeInfo p c"
      "pc (goroutines s ! tid ev) = N_Dedup" "\<not> nodeInfoMutex (node s)" "nodeInfo_dedup (node s) p"
      "s' = set_pc (tid ev) (Acts [WG_Done nodeInfoWG]) s"
  | p c where "\<not> panicked s" "tid ev < length (goroutines s)" "func (goroutines s ! tid ev) = nodeInfo p c"
      "pc (goroutines s ! tid ev) = N_Dedup" "\<not> nodeInfoMutex (node s)" "\<not> nodeInfo_dedup (node s) p"
      "s' = set_pc (tid ev) N_Retry s"
  | p c where "\<not> panicked s" "tid ev < length (goroutines s)" "func (goroutines s ! tid ev) = nodeInfo p c"
      "pc (goroutines s ! tid ev) = N_Retry" "snd (fst (nodeInfo_retry cfg ev p c)) \<noteq> None"
      "s' = set_pc (tid ev) (Acts [WG_Done nodeInfoWG]) (add_effects (tid ev) (snd (nodeInfo_retry cfg ev p c)) s)"
  | p c where "\<not> panicked s" "tid ev < length (goroutines s)" "func (goroutines s ! tid ev) = nodeInfo p c"
      "pc (goroutines s ! tid ev) = N_Retry" "snd (fst (nodeInfo_retry cfg ev p c)) = None"
      "s' = set_pc (tid ev) (N_Store (fst (fst (nodeInfo_retry cfg ev p c))))
              (add_effects (tid ev) (snd (nodeInfo_retry cfg ev p c)) s)"
  | p c res where "\<not> panicked s" "tid ev < length (goroutines s)" "func (goroutines s ! tid ev) = nodeInfo p c"
      "pc (goroutines s ! tid ev) = N_Store res" "\<not> nodeInfoMutex (node s)"
      "s' = set_pc (tid ev) (Acts [Unlock nodeInfoMu, WG_Done nodeInfoWG])
              (nodeInfo_store cfg p res (s\<lparr>node := (node s)\<lparr>nodeInfoMutex := True\<rparr>\<rparr>))"
  | a as s1 where "\<not> panicked s" "tid ev < length (goroutines s)"
      "pc (goroutines s ! tid ev) = Acts (a # as)" "do_action cfg ev a s = Some s1"
      "s' = set_pc (tid ev) (Acts as) s1"
proof (cases "panicked s \<or> tid ev \<ge> length (goroutines s)")
  case True
  then have "s' = s" using assms by (simp add: step_def)
  then show ?thesis by (rule that(1))
next
  case False
  then have np: "\<not> panicked s" and lt: "tid ev < length (goroutines s)" by simp_all
  let ?g = "goroutines s ! tid ev"
  have unf: "s' = (case pc ?g of
              Acts [] \<Rightarrow> s
            | Acts (a # as) \<Rightarrow>
                (case do_action cfg ev a s of
                   None \<Rightarrow> s
                 | Some s' \<Rightarrow> set_pc (tid ev) (Acts as) s')
            | p \<Rightarrow>
                (case func ?g of
                   dhtPing pubkey coords \<Rightarrow> step_dhtPing cfg ev pubkey coords p s
                 | nodeInfo pubkey coords \<Rightarrow> step_nodeInfo cfg ev pubkey coords p s
                 | main \<Rightarrow> s))"
    using assms np lt by (simp add: step_def Let_def)
  show ?thesis
  proof (cases "pc ?g")
    case (Acts as)
    show ?thesis
    proof (cases as)
      case Nil
      with Acts unf have "s' = s" by simp
      then show ?thesis by (rule that(1))
    next
      case (Cons a as')
      show ?thesis
      proof (cases "do_action cfg ev a s")
        case None
        with Acts Cons unf have "s' = s" by simp
        then show ?thesis by (rule that(1))
      next
        case (Some s1)
        with Acts Cons unf have "s' = set_pc (tid ev) (Acts as') s1" by simp
        with np lt Acts Cons Some show ?thesis by (intro that(11)) simp_all
      qed
    qed
  next
    case D_Dedup
    show ?thesis
    proof (cases "func ?g")
      case main
      with D_Dedup unf have "s' = s" by simp
      then show ?thesis by (rule that(1))
    next
      case (nodeInfo p c)
      with D_Dedup unf have "s' = s" by (simp add: step_nodeInfo_def)
      then show ?thesis by (rule that(1))
    next
      case (dhtPing p c)
      with D_Dedup unf have e: "s' = (if dhtMutex (node s) then s
          else if dhtPing_dedup (node s) p then set_pc (tid ev) (Acts [WG_Done dhtWG]) s
          else set_pc (tid ev) D_Retry s)" by (simp add: step_dhtPing_def)
      show ?thesis
      proof (cases "dhtMutex (node s)")
        case True
        with e have "s' = s" by simp
        then show ?thesis by (rule that(1))
      next
        case False
        show ?thesis
        proof (cases "dhtPing_dedup (node s) p")
          case True
          with e False have "s' = set_pc (tid ev) (Acts [WG_Done dhtWG]) s" by simp
          with np lt dhtPing D_Dedup False True show ?thesis by (intro that(2))
        next
          case nd: False
          with e False have "s' = set_pc (tid ev) D_Retry s" by simp
          with np lt dhtPing D_Dedup False nd show ?thesis by (intro that(3))
        qed
      qed
    qed
  next
    case D_Retry
    show ?thesis
    proof (cases "func ?g")
      case main
      with D_Retry unf have "s' = s" by simp
      then show ?thesis by (rule that(1))
    next
      case (nodeInfo p c)
      with D_Retry unf have "s' = s" by (simp add: step_nodeInfo_def)
      then show ?thesis by (rule that(1))
    next
      case (dhtPing p c)
      with D_Retry unf have "s' = set_pc (tid ev) (D_Update (fst (fst (dhtPing_retry cfg ev p c))) (snd (fst (dhtPing_retry cfg ev p c))))
              (add_effects (tid ev) (snd (dhtPing_retry cfg ev p c)) s)"
        by (simp add: step_dhtPing_def split_beta)
      with np lt dhtPing D_Retry show ?thesis by (intro that(4))
    qed
  next
    case (D_Update res err)
    show ?thesis
    proof (cases "func ?g")
      case main
      with D_Update unf have "s' = s" by simp
      then show ?thesis by (rule that(1))
    next
      case (nodeInfo p c)
      with D_Update unf have "s' = s" by (simp add: step_nodeInfo_def)
      then show ?thesis by (rule that(1))
    next
      case (dhtPing p c)
      show ?thesis
      proof (cases "dhtMutex (node s)")
        case True
        with dhtPing D_Update unf have "s' = s" by (simp add: step_dhtPing_def)
        then show ?thesis by (rule that(1))
      next
        case False
        with dhtPing D_Update unf have "s' = set_pc (tid ev)
              (Acts (dhtPing_rest (map_index zero_attempt (dhtVisited (node s)) (hex_EncodeToString p))
                       (dhtPing_info cfg p c err) p c res))
              (s\<lparr>node := (node s)\<lparr>dhtMutex := True,
                     dhtVisited := dhtPing_write (hex_EncodeToString p) (dhtPing_info cfg p c err) (dhtVisited (node s))\<rparr>\<rparr>)"
          by (simp add: step_dhtPing_def Let_def)
        with np lt dhtPing D_Update False show ?thesis by (intro that(5))
      qed
    qed
  next
    case N_Dedup
    show ?thesis
    proof (cases "func ?g")
      case main
      with N_Dedup unf have "s' = s" by simp
      then show ?thesis by (rule that(1))
    next
      case (dhtPing p c)
      with N_Dedup unf have "s' = s" by (simp add: step_dhtPing_def)
      then show ?thesis by (rule that(1))
    next
      case (nodeInfo p c)
      with N_Dedup unf have e: "s' = (if nodeInfoMutex (node s) then s
          else if nodeInfo_dedup (node s) p then set_pc (tid ev) (Acts [WG_Done nodeInfoWG]) s
          else set_pc (tid ev) N_Retry s)" by (simp add: step_nodeInfo_def)
      show ?thesis
      proof (cases "nodeInfoMutex (node s)")
        case True
        with e have "s' = s" by simp
        then show ?thesis by (rule that(1))
      next
        case False
        show ?thesis
        proof (cases "nodeInfo_dedup (node s) p")
          case True
          with e False have "s' = set_pc (tid ev) (Acts [WG_Done nodeInfoWG]) s" by simp
          with np lt nodeInfo N_Dedup False True show ?thesis by (intro that(6))
        next
          case nd: False
          with e False have "s' = set_pc (tid ev) N_Retry s" by simp
          with np lt nodeInfo N_Dedup False nd show ?thesis by (intro that(7))
        qed
      qed
    qed
  next
    case N_Retry
    show ?thesis
    proof (cases "func ?g")
      case main
      with N_Retry unf have "s' = s" by simp
      then show ?thesis by (rule that(1))
    next
      case (dhtPing p c)
      with N_Retry unf have "s' = s" by (simp add: step_dhtPing_def)
      then show ?thesis by (rule that(1))
    next
      case (nodeInfo p c)
      show ?thesis
      proof (cases "snd (fst (nodeInfo_retry cfg ev p c)) = None")
        case False
        with nodeInfo N_Retry unf have "s' = set_pc (tid ev) (Acts [WG_Done nodeInfoWG])
            (add_effects (tid ev) (snd (nodeInfo_retry cfg ev p c)) s)"
          by (simp add: step_nodeInfo_def split_beta)
        with np lt nodeInfo N_Retry False show ?thesis by (intro that(8))
      next
        case True
        with nodeInfo N_Retry unf have "s' = set_pc (tid ev) (N_Store (fst (fst (nodeInfo_retry cfg ev p c))))
              (add_effects (tid ev) (snd (nodeInfo_retry cfg ev p c)) s)"
          by (simp add: step_nodeInfo_def split_beta)
        with np lt nodeInfo N_Retry True show ?thesis by (intro that(9))
      qed
    qed
  next
    case (N_Store res)
    show ?thesis
    proof (cases "func ?g")
      case main
      with N_Store unf have "s' = s" by simp
      then show ?thesis by (rule that(1))
    next
      case (dhtPing p c)
      with N_Store unf have "s' = s" by (simp add: step_dhtPing_def)
      then show ?thesis by (rule that(1))
    next
      case (nodeInfo p c)
      show ?thesis
      proof (cases "nodeInfoMutex (node s)")
        case True
        with nodeInfo N_Store unf have "s' = s" by (simp add: step_nodeInfo_def)
        then show ?thesis by (rule that(1))
      next
        case False
        with nodeInfo N_Store unf have "s' = set_pc (tid ev) (Acts [Unlock nodeInfoMu, WG_Done nodeInfoWG])
              (nodeInfo_store cfg p res (s\<lparr>node := (node s)\<lparr>nodeInfoMutex := True\<rparr>\<rparr>))"
          by (simp add: step_nodeInfo_def)
        with np lt nodeInfo N_Store False show ?thesis by (intro that(10))
      qed
    qed
  qed
qed


subsection \<open>Projections of the state updates\<close>

lemma set_pc_fields [simp]:
  "node (set_pc t p s) = node s"
  "stdout (set_pc t p s) = stdout s"
  "written (set_pc t p s) = written s"
  "panicked (set_pc t p s) = panicked s"
  "goroutines (set_pc t p s) = (goroutines s)[t := (goroutines s ! t)\<lparr>pc := p\<rparr>]"
  by (simp_all add: set_pc_def)

lemma add_effects_fields [simp]:
  "node (add_effects t tr s) = node s"
  "stdout (add_effects t tr s) = stdout s"
  "written (add_effects t tr s) = written s"
  "panicked (add_effects t tr s) = panicked s"
  "goroutines (add_effects t tr s) = (goroutines s)[t := (goroutines s ! t)\<lparr>effects := effects (goroutines s ! t) @ tr\<rparr>]"
  by (simp_all add: add_effects_def)

lemma nodeInfo_store_fields [simp]:
  "goroutines (nodeInfo_store cfg p res s) = goroutines s"
  "panicked (nodeInfo_store cfg p res s) = panicked s"
  "written (nodeInfo_store cfg p res s) = written s"
  "dhtVisited (node (nodeInfo_store cfg p res s)) = dhtVisited (node s)"
  "dhtWaitGroup (node (nodeInfo_store cfg p res s)) = dhtWaitGroup (node s)"
  "nodeInfoWaitGroup (node (nodeInfo_store cfg p res s)) = nodeInfoWaitGroup (node s)"
  "dhtMutex (node (nodeInfo_store cfg p res s)) = dhtMutex (node s)"
  "nodeInfoMutex (node (nodeInfo_store cfg p res s)) = nodeInfoMutex (node s)"
  by (simp_all add: nodeInfo_store_def split: sum.splits)

lemma aggregate_fields [simp]:
  "goroutines (aggregate cfg ev s) = goroutines s"
  "panicked (aggregate cfg ev s) = panicked s"
  "node (aggregate cfg ev s) = node s"
  by (simp_all add: aggregate_def Let_def split: option.splits)

lemma counter_simps [simp]:
  "counter dhtWG n = dhtWaitGroup n"
  "counter nodeInfoWG n = nodeInfoWaitGroup n"
  by (simp_all add: counter_def)

lemma locked_simps [simp]:
  "locked dhtMu n = dhtMutex n"
  "locked nodeInfoMu n = nodeInfoMutex n"
  by (simp_all add: locked_def)

lemma set_counter_fields [simp]:
  "dhtVisited (set_counter w c n) = dhtVisited n"
  "nodeInfoVisited (set_counter w c n) = nodeInfoVisited n"
  "dhtMutex (set_counter w c n) = dhtMutex n"
  "nodeInfoMutex (set_counter w c n) = nodeInfoMutex n"
  "counter w' (set_counter w c n) = (if w' = w then c else counter w' n)"
  "locked m (set_counter w c n) = locked m n"
  by (cases w; cases w'; cases m; simp add: set_counter_def)+

lemma set_locked_fields [simp]:
  "dhtVisited (set_locked m b n) = dhtVisited n"
  "nodeInfoVisited (set_locked m b n) = nodeInfoVisited n"
  "dhtWaitGroup (set_locked m b n) = dhtWaitGroup n"
  "nodeInfoWaitGroup (set_locked m b n) = nodeInfoWaitGroup n"
  "locked m' (set_locked m b n) = (if m' = m then b else locked m' n)"
  "counter w (set_locked m b n) = counter w n"
  by (cases m; cases m'; cases w; simp add: set_locked_def)+

text \<open>What one action does to each part of the state.\<close>

lemma do_action_maps:
  assumes "do_action cfg ev a s = Some s1"
  shows "dhtVisited (node s1) = dhtVisited (node s)" "nodeInfoVisited (node s1) = nodeInfoVisited (node s)"
  using assms by (cases a; auto split: if_splits)+

lemma do_action_goroutines:
  assumes "do_action cfg ev a s = Some s1"
  shows "goroutines s1 = goroutines s @ (case a of Go c \<Rightarrow> [spawn c] | _ \<Rightarrow> [])"
  using assms by (cases a; auto split: if_splits)

lemma do_action_counter:
  assumes "do_action cfg ev a s = Some s1" "\<not> panicked s1"
  shows "counter w (node s1) = counter w (node s) +
           (case a of WG_Add w' \<Rightarrow> if w' = w then 1 else 0 | WG_Done w' \<Rightarrow> if w' = w then - 1 else 0 | _ \<Rightarrow> 0)"
  using assms by (cases a; auto split: if_splits)

lemma do_action_locked:
  assumes "do_action cfg ev a s = Some s1" "\<not> panicked s1"
  shows "locked m (node s1) =
           (case a of Lock m' \<Rightarrow> if m' = m then True else locked m (node s)
                    | Unlock m' \<Rightarrow> if m' = m then False else locked m (node s)
                    | _ \<Rightarrow> locked m (node s))"
  using assms by (cases a; auto split: if_splits)

lemma do_action_panicked:
  assumes "do_action cfg ev a s = Some s1" "\<not> panicked s"
  shows "panicked s1 \<longleftrightarrow>
           (case a of Unlock m \<Rightarrow> \<not> locked m (node s) | WG_Done w \<Rightarrow> counter w (node s) < 1 | _ \<Rightarrow> False)"
  using assms by (cases a; auto split: if_splits)

lemma do_action_enabled:
  assumes "do_action cfg ev a s = Some s1"
  shows "case a of WG_Wait w \<Rightarrow> counter w (node s) = 0 | Lock m \<Rightarrow> \<not> locked m (node s) | _ \<Rightarrow> True"
  using assms by (cases a; simp split: if_splits)


subsection \<open>The discovery record is monotone\<close>

lemma map_index_update:
  "map_index z (AList.update k v m) k' = (if k' = k then v else map_index z m k')"
  by (simp add: map_index_def update_conv')

lemma dhtPing_write_index:
  "map_index zero_attempt (dhtPing_write key info m) k =
     (if k = key \<and> (Found info \<or> \<not> Found (map_index zero_attempt m key)) then info
      else map_index zero_attempt m k)"
  by (simp add: dhtPing_write_def Let_def map_index_update)

lemma dhtPing_write_found:
  "Found (map_index zero_attempt m k) \<Longrightarrow> Found (map_index zero_attempt (dhtPing_write key info m) k)"
  by (auto simp: dhtPing_write_index)

lemma step_dhtVisited:
  "dhtVisited (node (step cfg ev s)) = dhtVisited (node s) \<or>
   (\<exists>p c res err. tid ev < length (goroutines s) \<and> func (goroutines s ! tid ev) = dhtPing p c \<and>
      pc (goroutines s ! tid ev) = D_Update res err \<and>
      dhtVisited (node (step cfg ev s)) =
        dhtPing_write (hex_EncodeToString p) (dhtPing_info cfg p c err) (dhtVisited (node s)))"
proof -
  obtain s' where s': "step cfg ev s = s'" by simp
  from s' show ?thesis
  proof (cases rule: step_cases)
    case (act a as s1)
    then show ?thesis using do_action_maps(1)[OF act(4)] s' by simp
  next
    case (d_update p c res err)
    then show ?thesis using s' by simp
  qed (use s' in simp_all)
qed

lemma step_found:
  "Found (map_index zero_attempt (dhtVisited (node s)) k) \<Longrightarrow>
   Found (map_index zero_attempt (dhtVisited (node (step cfg ev s))) k)"
  using step_dhtVisited[of cfg ev s] by (auto simp: dhtPing_write_found)

lemma exec_found:
  "Found (map_index zero_attempt (dhtVisited (node s)) k) \<Longrightarrow>
   Found (map_index zero_attempt (dhtVisited (node (exec cfg evs s))) k)"
  by (induction evs arbitrary: s) (simp_all add: step_found)

lemma exec_append: "exec cfg (evs @ evs') s = exec cfg evs' (exec cfg evs s)"
  by (induction evs arbitrary: s) simp_all

subsection \<open>The shapes of the goroutines\<close>

lemma ok_dht_rest: "ok_dht (dhtPing_rest oldInfo info p c res)"
proof -
  have g: "\<not> next_is_Go (concat (map (\<lambda>i. [WG_Add dhtWG, Go (dhtPing (PublicKey i) (entry_Coords i))]) rs) @ [Unlock dhtMu, WG_Done dhtWG])" for rs
    by (cases rs) (simp_all add: next_is_Go_def)
  have f: "ok_dht (concat (map (\<lambda>i. [WG_Add dhtWG, Go (dhtPing (PublicKey i) (entry_Coords i))]) rs) @ [Unlock dhtMu, WG_Done dhtWG])" for rs
    by (induction rs) (simp_all add: wg_of_def g)
  show ?thesis
    using f[of "Infos res"] g[of "Infos res"] by (simp add: dhtPing_rest_def wg_of_def)
qed

lemma shape_spawn: "shape cfg (spawn c)"
proof (cases c)
  case main
  then show ?thesis by (simp add: shape_def spawn_def)
qed (simp_all add: shape_def spawn_def)

lemma shape_effects [simp]: "shape cfg (g\<lparr>effects := e\<rparr>) = shape cfg g"
  by (simp add: shape_def cong: call.case_cong pc.case_cong)

lemma shape_tail:
  assumes "shape cfg g" "pc g = Acts (a # as)"
  shows "shape cfg (g\<lparr>pc := Acts as\<rparr>)"
proof (cases "func g")
  case main
  with assms have "suffix (a # as) (main_body cfg)" by (simp add: shape_def)
  then have "suffix as (main_body cfg)" by (rule suffix_ConsD)
  with main show ?thesis by (simp add: shape_def)
next
  case (dhtPing p c)
  with assms show ?thesis by (simp add: shape_def)
next
  case (nodeInfo p c)
  with assms show ?thesis by (auto simp: shape_def)
qed

lemma shapes_update:
  assumes "\<forall>g \<in> set gs. shape cfg g" "shape cfg g'"
  shows "\<forall>g \<in> set (gs[t := g']). shape cfg g"
  using assms set_update_subset_insert[of gs t g'] by auto

lemma shape_dhtPing:
  "func g = dhtPing p c \<Longrightarrow>
   shape cfg (g\<lparr>pc := q\<rparr>) =
     (case q of D_Dedup \<Rightarrow> True | D_Retry \<Rightarrow> True | D_Update r e \<Rightarrow> True | Acts as \<Rightarrow> ok_dht as | _ \<Rightarrow> False)"
  by (simp add: shape_def)

lemma shape_nodeInfo:
  "func g = nodeInfo p c \<Longrightarrow>
   shape cfg (g\<lparr>pc := q\<rparr>) =
     (case q of N_Dedup \<Rightarrow> True | N_Retry \<Rightarrow> True | N_Store r \<Rightarrow> True
        | Acts as \<Rightarrow> as = [Unlock nodeInfoMu, WG_Done nodeInfoWG] \<or> as = [WG_Done nodeInfoWG] \<or> as = []
        | _ \<Rightarrow> False)"
  by (simp add: shape_def)

lemma shapes_set_pc:
  assumes "\<forall>g \<in> set (goroutines s). shape cfg g" "shape cfg ((goroutines s ! t)\<lparr>pc := q\<rparr>)"
  shows "\<forall>g \<in> set (goroutines (set_pc t q s)). shape cfg g"
  by (simp only: set_pc_fields) (rule shapes_update[OF assms])

lemma shapes_add_effects:
  assumes "\<forall>g \<in> set (goroutines s). shape cfg g" "t < length (goroutines s)"
  shows "\<forall>g \<in> set (goroutines (add_effects t tr s)). shape cfg g"
proof -
  have "shape cfg (goroutines s ! t)" using assms by (meson nth_mem)
  then have "shape cfg ((goroutines s ! t)\<lparr>effects := effects (goroutines s ! t) @ tr\<rparr>)"
    by (simp only: shape_effects)
  from shapes_update[OF assms(1) this] show ?thesis
    by (simp only: add_effects_fields)
qed

lemma shape_step:
  assumes "step cfg ev s = s'" and sh: "\<forall>g \<in> set (goroutines s). shape cfg g"
  shows "\<forall>g \<in> set (goroutines s'). shape cfg g"
  using assms(1)
proof (cases rule: step_cases)
  case stutter
  then show ?thesis using sh by (simp only:)
next
  case (d_hit p c)
  show ?thesis unfolding d_hit(7)
    by (rule shapes_set_pc[OF sh]) (simp add: shape_dhtPing[OF d_hit(3)])
next
  case (d_miss p c)
  show ?thesis unfolding d_miss(7)
    by (rule shapes_set_pc[OF sh]) (simp add: shape_dhtPing[OF d_miss(3)])
next
  case (d_retry p c)
  show ?thesis unfolding d_retry(5)
    by (rule shapes_set_pc[OF shapes_add_effects[OF sh d_retry(2)]])
       (simp add: d_retry(2) d_retry(3) shape_def)
next
  case (d_update p c res err)
  show ?thesis unfolding d_update(6)
  proof (rule shapes_set_pc)
    have "goroutines (s\<lparr>node := (node s)\<lparr>dhtMutex := True,
                     dhtVisited := dhtPing_write (hex_EncodeToString p) (dhtPing_info cfg p c err) (dhtVisited (node s))\<rparr>\<rparr>) = goroutines s"
      by simp
    then show "\<forall>g\<in>set (goroutines (s\<lparr>node := (node s)\<lparr>dhtMutex := True,
                     dhtVisited := dhtPing_write (hex_EncodeToString p) (dhtPing_info cfg p c err) (dhtVisited (node s))\<rparr>\<rparr>)). shape cfg g"
      using sh by (simp only:)
  qed (simp add: d_update(3) shape_def ok_dht_rest)
next
  case (n_hit p c)
  show ?thesis unfolding n_hit(7)
    by (rule shapes_set_pc[OF sh]) (simp add: shape_nodeInfo[OF n_hit(3)])
next
  case (n_miss p c)
  show ?thesis unfolding n_miss(7)
    by (rule shapes_set_pc[OF sh]) (simp add: shape_nodeInfo[OF n_miss(3)])
next
  case (n_fail p c)
  show ?thesis unfolding n_fail(6)
    by (rule shapes_set_pc[OF shapes_add_effects[OF sh n_fail(2)]])
       (simp add: n_fail(2) n_fail(3) shape_def)
next
  case (n_ok p c)
  show ?thesis unfolding n_ok(6)
    by (rule shapes_set_pc[OF shapes_add_effects[OF sh n_ok(2)]])
       (simp add: n_ok(2) n_ok(3) shape_def)
next
  case (n_store p c res)
  show ?thesis unfolding n_store(6)
  proof (rule shapes_set_pc)
    have "goroutines (nodeInfo_store cfg p res (s\<lparr>node := (node s)\<lparr>nodeInfoMutex := True\<rparr>\<rparr>)) = goroutines s"
      by simp
    then show "\<forall>g\<in>set (goroutines (nodeInfo_store cfg p res (s\<lparr>node := (node s)\<lparr>nodeInfoMutex := True\<rparr>\<rparr>))). shape cfg g"
      using sh by (simp only:)
  qed (simp add: n_store(3) shape_def)
next
  case (act a as s1)
  let ?g = "goroutines s ! tid ev"
  have "shape cfg ?g" using sh act(2) by simp
  then have g': "shape cfg (?g\<lparr>pc := Acts as\<rparr>)" using act(3) by (rule shape_tail)
  have gs: "goroutines s1 = goroutines s @ (case a of Go c \<Rightarrow> [spawn c] | _ \<Rightarrow> [])"
    using act(4) by (rule do_action_goroutines)
  have all1: "\<forall>g \<in> set (goroutines s1). shape cfg g"
  proof
    fix g assume "g \<in> set (goroutines s1)"
    then have "g \<in> set (goroutines s) \<or> (\<exists>c. g = spawn c)"
      unfolding gs by (cases a) auto
    then show "shape cfg g" using sh shape_spawn by blast
  qed
  have nth: "goroutines s1 ! tid ev = ?g"
    unfolding gs using act(2) by (simp add: nth_append)
  show ?thesis
    unfolding act(5) using g' by (intro shapes_set_pc[OF all1]) (simp add: nth)
qed


subsection \<open>The wait-group counters\<close>

lemma total_update_int:
  "t < length xs \<Longrightarrow> total f (xs[t := y]) = total f xs - f (xs ! t) + (f y :: int)"
  using total_update[of t xs f y] by simp

lemma total_ge_int:
  assumes "\<forall>x \<in> set xs. (0::int) \<le> f x" "t < length xs"
  shows "f (xs ! t) \<le> total f xs"
  using assms
proof (induction xs arbitrary: t)
  case Nil
  then show ?case by simp
next
  case (Cons x xs)
  have nn: "0 \<le> total f xs" using Cons.prems(1) by (induction xs) auto
  show ?case
  proof (cases t)
    case 0
    then show ?thesis using nn by simp
  next
    case (Suc n)
    then have "f (xs ! n) \<le> total f xs" using Cons by simp
    then show ?thesis using Suc Cons.prems(1) by simp
  qed
qed

lemma acts_weight_Nil [simp]: "acts_weight w [] = 0"
  by (simp add: acts_weight_def)

lemma acts_weight_Cons:
  "acts_weight w (a # as) = acts_weight w as +
     (case a of Go c \<Rightarrow> of_bool (wg_of c = Some w) | WG_Add w' \<Rightarrow> - of_bool (w' = w)
        | WG_Done w' \<Rightarrow> of_bool (w' = w) | _ \<Rightarrow> 0)"
  by (cases a) (auto simp: acts_weight_def is_Go_for_def)

lemma acts_weight_fan:
  "acts_weight w (concat (map (\<lambda>i. [WG_Add dhtWG, Go (dhtPing (PublicKey i) (entry_Coords i))]) rs) @ rest) = acts_weight w rest"
  by (induction rs) (simp_all add: acts_weight_Cons wg_of_def)

lemma acts_weight_rest: "acts_weight w (dhtPing_rest oldInfo info p c res) = of_bool (w = dhtWG)"
  by (simp add: dhtPing_rest_def acts_weight_fan acts_weight_Cons wg_of_def)

lemma weight_pc:
  "weight w (g\<lparr>pc := q\<rparr>) = (case q of Acts as \<Rightarrow> acts_weight w as | _ \<Rightarrow> of_bool (wg_of (func g) = Some w))"
  by (simp add: weight_def)

lemma weight_effects [simp]: "weight w (g\<lparr>effects := e\<rparr>) = weight w g"
  by (simp add: weight_def)

lemma weight_spawn: "weight w (spawn c) = of_bool (wg_of c = Some w)"
  by (cases c) (simp_all add: weight_def spawn_def wg_of_def)

lemma total_weight_add_effects [simp]:
  "total (weight w) (goroutines (add_effects t tr s)) = total (weight w) (goroutines s)"
proof (cases "t < length (goroutines s)")
  case True
  then show ?thesis by (simp add: total_update_int)
next
  case False
  then show ?thesis by (simp add: list_update_beyond)
qed

lemma total_weight_set_pc:
  "t < length (goroutines s) \<Longrightarrow>
   total (weight w) (goroutines (set_pc t q s)) =
     total (weight w) (goroutines s) - weight w (goroutines s ! t) + weight w ((goroutines s ! t)\<lparr>pc := q\<rparr>)"
  by (simp add: total_update_int)

text \<open>Under the shapes, the weight of a goroutine is what it owes.\<close>

lemma acts_weight_ok_dht:
  "ok_dht as \<Longrightarrow>
   acts_weight w as = of_bool (w = dhtWG \<and> as \<noteq> []) +
     of_bool (case as of Go c # as' \<Rightarrow> wg_of c = Some w | _ \<Rightarrow> False)"
proof (induction as)
  case Nil
  then show ?case by simp
next
  case (Cons a as)
  then have ih: "acts_weight w as = of_bool (w = dhtWG \<and> as \<noteq> []) +
     of_bool (case as of Go c # as' \<Rightarrow> wg_of c = Some w | _ \<Rightarrow> False)" by simp
  show ?case
  proof (cases a)
    case (WG_Add w')
    with Cons.prems obtain c as' where as: "as = Go c # as'" "wg_of c = Some w'"
      by (cases as; simp split: action.splits)
    show ?thesis using ih as WG_Add by (auto simp: acts_weight_Cons)
  next
    case (Go c)
    with Cons.prems have "as \<noteq> []" "\<not> next_is_Go as" by simp_all
    then have "(case as of Go c # as' \<Rightarrow> wg_of c = Some w | _ \<Rightarrow> False) = False"
      by (cases as; simp add: next_is_Go_def split: action.splits)
    then show ?thesis using ih Go \<open>as \<noteq> []\<close> by (simp add: acts_weight_Cons)
  next
    case (Unlock m)
    with Cons.prems have "as = [WG_Done dhtWG]" by simp
    then show ?thesis using Unlock by (simp add: acts_weight_Cons)
  next
    case (WG_Done w')
    with Cons.prems have "w' = dhtWG" "as = []" by simp_all
    then show ?thesis using WG_Done by (auto simp add: acts_weight_Cons)
  next
    case (WG_Wait x)
    with Cons.prems show ?thesis by simp
  next
    case (Lock x)
    with Cons.prems show ?thesis by simp
  next
    case Aggregate
    with Cons.prems show ?thesis by simp
  qed
qed

lemma suffix_main_body:
  assumes "suffix as (main_body cfg)"
  shows "as \<in> {main_body cfg,
            [Go (dhtPing (self_key cfg) (self_coords cfg)), WG_Wait dhtWG, WG_Wait nodeInfoWG, Lock dhtMu, Lock nodeInfoMu, Aggregate],
            [WG_Wait dhtWG, WG_Wait nodeInfoWG, Lock dhtMu, Lock nodeInfoMu, Aggregate],
            [WG_Wait nodeInfoWG, Lock dhtMu, Lock nodeInfoMu, Aggregate],
            [Lock dhtMu, Lock nodeInfoMu, Aggregate],
            [Lock nodeInfoMu, Aggregate],
            [Aggregate],
            []}"
proof -
  from assms have "as \<in> set (suffixes (main_body cfg))" by (simp only: in_set_suffixes)
  then show ?thesis by (simp add: main_body_def del: in_set_suffixes) blast
qed

lemma weight_owed:
  assumes "shape cfg g"
  shows "weight w g = int (owed w g)"
proof (cases "func g")
  case main
  with assms obtain as where as: "pc g = Acts as" "suffix as (main_body cfg)"
    by (auto simp: shape_def)
  from suffix_main_body[OF as(2)]
  have "acts_weight w as = int (of_bool (case as of Go c # as' \<Rightarrow> wg_of c = Some w | _ \<Rightarrow> False))"
    by (auto simp: main_body_def acts_weight_Cons wg_of_def)
  then show ?thesis using main as(1)
    by (simp add: weight_def owed_def running_def spawning_def acts_def wg_of_def)
next
  case (dhtPing p c)
  show ?thesis
  proof (cases "pc g")
    case (Acts as)
    with assms dhtPing have "ok_dht as" by (simp add: shape_def)
    from acts_weight_ok_dht[OF this, of w] show ?thesis using dhtPing Acts
      by (auto simp add: weight_def owed_def running_def spawning_def acts_def wg_of_def)
  qed (use assms dhtPing in \<open>auto simp add: weight_def owed_def running_def spawning_def acts_def wg_of_def shape_def\<close>)
next
  case (nodeInfo p c)
  show ?thesis
  proof (cases "pc g")
    case (Acts as)
    with assms nodeInfo have "as = [Unlock nodeInfoMu, WG_Done nodeInfoWG] \<or> as = [WG_Done nodeInfoWG] \<or> as = []"
      by (simp add: shape_def)
    then show ?thesis using nodeInfo Acts
      by (auto simp add: weight_def owed_def running_def spawning_def acts_def wg_of_def acts_weight_Cons)
  qed (use assms nodeInfo in \<open>auto simp add: weight_def owed_def running_def spawning_def acts_def wg_of_def shape_def\<close>)
qed

lemma total_weight_owed:
  assumes "\<forall>g \<in> set gs. shape cfg g"
  shows "total (weight w) gs = int (total (owed w) gs)"
  using assms by (induction gs) (simp_all add: weight_owed[of cfg])


lemma act_goroutines:
  assumes "do_action cfg ev a s = Some s1" "t < length (goroutines s)"
  shows "goroutines (set_pc t (Acts as) s1) =
           (goroutines s)[t := (goroutines s ! t)\<lparr>pc := Acts as\<rparr>] @ (case a of Go c \<Rightarrow> [spawn c] | _ \<Rightarrow> [])"
  using assms(2) by (simp add: do_action_goroutines[OF assms(1)] list_update_append1 nth_append)

text \<open>What a step does to the list of goroutines.\<close>

lemma step_goroutines:
  assumes "step cfg ev s = s'"
  shows "\<exists>g' new.
    goroutines s' = (goroutines s)[tid ev := g'] @ new \<and>
    (tid ev < length (goroutines s) \<longrightarrow> func g' = func (goroutines s ! tid ev)) \<and>
    (new = [] \<or> (\<exists>c as. tid ev < length (goroutines s) \<and> pc (goroutines s ! tid ev) = Acts (Go c # as) \<and> new = [spawn c]))"
proof -
  let ?g = "goroutines s ! tid ev"
  have that: "\<exists>g' new.
    goroutines s' = (goroutines s)[tid ev := g'] @ new \<and>
    (tid ev < length (goroutines s) \<longrightarrow> func g' = func (goroutines s ! tid ev)) \<and>
    (new = [] \<or> (\<exists>c as. tid ev < length (goroutines s) \<and> pc (goroutines s ! tid ev) = Acts (Go c # as) \<and> new = [spawn c]))"
    if "goroutines s' = (goroutines s)[tid ev := g'] @ new"
      "func g' = func (goroutines s ! tid ev)"
      "new = [] \<or> (\<exists>c as. tid ev < length (goroutines s) \<and> pc (goroutines s ! tid ev) = Acts (Go c # as) \<and> new = [spawn c])"
    for g' new
    using that by blast
  from assms show ?thesis
  proof (cases rule: step_cases)
    case stutter
    show ?thesis
    proof (rule that[of ?g "[]"])
      show "goroutines s' = (goroutines s)[tid ev := ?g] @ []" using stutter by simp
    qed simp_all
  next
    case (d_hit p c)
    show ?thesis by (rule that[of "?g\<lparr>pc := Acts [WG_Done dhtWG]\<rparr>" "[]"]) (simp_all add: d_hit(7))
  next
    case (d_miss p c)
    show ?thesis by (rule that[of "?g\<lparr>pc := D_Retry\<rparr>" "[]"]) (simp_all add: d_miss(7))
  next
    case (d_retry p c)
    show ?thesis
      by (rule that[of "?g\<lparr>effects := effects ?g @ snd (dhtPing_retry cfg ev p c),
              pc := D_Update (fst (fst (dhtPing_retry cfg ev p c))) (snd (fst (dhtPing_retry cfg ev p c)))\<rparr>" "[]"])
         (simp_all add: d_retry(5) d_retry(2))
  next
    case (d_update p c res err)
    show ?thesis
      by (rule that[of "?g\<lparr>pc := Acts (dhtPing_rest (map_index zero_attempt (dhtVisited (node s)) (hex_EncodeToString p))
                       (dhtPing_info cfg p c err) p c res)\<rparr>" "[]"])
         (simp_all add: d_update(6))
  next
    case (n_hit p c)
    show ?thesis by (rule that[of "?g\<lparr>pc := Acts [WG_Done nodeInfoWG]\<rparr>" "[]"]) (simp_all add: n_hit(7))
  next
    case (n_miss p c)
    show ?thesis by (rule that[of "?g\<lparr>pc := N_Retry\<rparr>" "[]"]) (simp_all add: n_miss(7))
  next
    case (n_fail p c)
    show ?thesis
      by (rule that[of "?g\<lparr>effects := effects ?g @ snd (nodeInfo_retry cfg ev p c), pc := Acts [WG_Done nodeInfoWG]\<rparr>" "[]"])
         (simp_all add: n_fail(6) n_fail(2))
  next
    case (n_ok p c)
    show ?thesis
      by (rule that[of "?g\<lparr>effects := effects ?g @ snd (nodeInfo_retry cfg ev p c),
             pc := N_Store (fst (fst (nodeInfo_retry cfg ev p c)))\<rparr>" "[]"])
         (simp_all add: n_ok(6) n_ok(2))
  next
    case (n_store p c res)
    show ?thesis
      by (rule that[of "?g\<lparr>pc := Acts [Unlock nodeInfoMu, WG_Done nodeInfoWG]\<rparr>" "[]"]) (simp_all add: n_store(6))
  next
    case (act a as s1)
    show ?thesis
    proof (rule that[of "?g\<lparr>pc := Acts as\<rparr>" "case a of Go c \<Rightarrow> [spawn c] | _ \<Rightarrow> []"])
      show "goroutines s' = (goroutines s)[tid ev := ?g\<lparr>pc := Acts as\<rparr>] @ (case a of Go c \<Rightarrow> [spawn c] | _ \<Rightarrow> [])"
        unfolding act(5) by (rule act_goroutines[OF act(4) act(2)])
      show "func (?g\<lparr>pc := Acts as\<rparr>) = func ?g" by simp
      show "(case a of Go c \<Rightarrow> [spawn c] | _ \<Rightarrow> []) = [] \<or>
            (\<exists>c as. tid ev < length (goroutines s) \<and> pc ?g = Acts (Go c # as) \<and> (case a of Go c \<Rightarrow> [spawn c] | _ \<Rightarrow> []) = [spawn c])"
        using act(2,3) by (cases a) simp_all
    qed
  qed
qed

lemma shape_Go:
  assumes "shape cfg g" "pc g = Acts (Go c # as)"
  shows "wg_of c \<noteq> None"
proof (cases "func g")
  case main
  with assms have "suffix (Go c # as) (main_body cfg)" by (simp add: shape_def)
  from suffix_main_body[OF this] show ?thesis by (auto simp: main_body_def wg_of_def)
next
  case (dhtPing p x)
  with assms show ?thesis by (simp add: shape_def)
next
  case (nodeInfo p x)
  with assms show ?thesis by (auto simp: shape_def)
qed

lemma main_only_step:
  assumes st: "step cfg ev s = s'"
    and ne: "goroutines s \<noteq> []"
    and mo: "\<forall>t < length (goroutines s). func (goroutines s ! t) = main \<longleftrightarrow> t = 0"
    and sh: "\<forall>g \<in> set (goroutines s). shape cfg g"
  shows "goroutines s' \<noteq> [] \<and> (\<forall>t < length (goroutines s'). func (goroutines s' ! t) = main \<longleftrightarrow> t = 0)"
proof -
  from step_goroutines[OF st] obtain g' new where gs: "goroutines s' = (goroutines s)[tid ev := g'] @ new"
    and fn: "tid ev < length (goroutines s) \<longrightarrow> func g' = func (goroutines s ! tid ev)"
    and nw: "new = [] \<or> (\<exists>c as. tid ev < length (goroutines s) \<and> pc (goroutines s ! tid ev) = Acts (Go c # as) \<and> new = [spawn c])"
    by blast
  have 1: "goroutines s' \<noteq> []" using gs ne by simp
  have 2: "func (goroutines s' ! t) = main \<longleftrightarrow> t = 0" if t: "t < length (goroutines s')" for t
  proof (cases "t < length (goroutines s)")
    case True
    then have "goroutines s' ! t = ((goroutines s)[tid ev := g']) ! t" using gs by (simp add: nth_append)
    then have "func (goroutines s' ! t) = func (goroutines s ! t)"
      using True fn by (cases "t = tid ev") simp_all
    then show ?thesis using mo True by simp
  next
    case False
    with t gs nw obtain c as where c: "tid ev < length (goroutines s)"
      "pc (goroutines s ! tid ev) = Acts (Go c # as)" "new = [spawn c]"
      by auto
    have "shape cfg (goroutines s ! tid ev)" using sh c(1) by simp
    from shape_Go[OF this c(2)] have "c \<noteq> main" by (auto simp: wg_of_def)
    moreover have "goroutines s' ! t = spawn c" using False t gs c(3) by (simp add: nth_append)
    moreover have "t \<noteq> 0" using False ne by (cases "goroutines s") auto
    ultimately show ?thesis by (simp add: spawn_def)
  qed
  from 1 2 show ?thesis by blast
qed


lemma total_append_update_int:
  "t < length xs \<Longrightarrow>
   total f (xs[t := y] @ new) = total f xs - f (xs ! t) + (f y :: int) + total f new"
  by (simp add: total_update_int)

lemma total_append_update_nat:
  "t < length xs \<Longrightarrow>
   total f (xs[t := y] @ new) + (f (xs ! t) :: nat) = total f xs + f y + total f new"
  using total_update[of t xs f y] by simp

lemma holding_pc: "holding m (g\<lparr>pc := q\<rparr>) = (case q of Acts as \<Rightarrow> count_list as (Unlock m) | _ \<Rightarrow> 0)"
  by (cases q) (simp_all add: holding_def acts_def)

lemma holding_effects [simp]: "holding m (g\<lparr>effects := e\<rparr>) = holding m g"
  by (simp add: holding_def acts_def)

lemma holding_spawn [simp]: "holding m (spawn c) = 0"
  by (cases c) (simp_all add: holding_def acts_def spawn_def)

lemma holding_rest: "count_list (dhtPing_rest oldInfo info p c res) (Unlock m) = of_bool (m = dhtMu)"
proof -
  have "count_list (concat (map (\<lambda>i. [WG_Add dhtWG, Go (dhtPing (PublicKey i) (entry_Coords i))]) rs)) (Unlock m) = 0" for rs
    by (induction rs) simp_all
  then show ?thesis by (simp add: dhtPing_rest_def)
qed

text \<open>The counters follow the weights, whatever the shapes.\<close>

lemma weight_set_pc_same:
  assumes "t < length (goroutines s)" "weight w ((goroutines s ! t)\<lparr>pc := q\<rparr>) = weight w (goroutines s ! t)"
  shows "total (weight w) (goroutines (set_pc t q s)) = total (weight w) (goroutines s)"
  using assms by (simp add: total_update_int)

lemma weight_set_pc_effects_same:
  assumes "t < length (goroutines s)" "weight w ((goroutines s ! t)\<lparr>pc := q\<rparr>) = weight w (goroutines s ! t)"
  shows "total (weight w) (goroutines (set_pc t q (add_effects t tr s))) = total (weight w) (goroutines s)"
proof -
  have "weight w ((goroutines s ! t)\<lparr>effects := effects (goroutines s ! t) @ tr, pc := q\<rparr>)
      = weight w ((goroutines s ! t)\<lparr>pc := q\<rparr>)"
    by (simp add: weight_def)
  then show ?thesis using assms by (simp add: total_update_int)
qed

lemma counter_step:
  assumes st: "step cfg ev s = s'" and np: "\<not> panicked s'"
    and co: "counter w (node s) = total (weight w) (goroutines s)"
  shows "counter w (node s') = total (weight w) (goroutines s')"
  using st
proof (cases rule: step_cases)
  case stutter
  then show ?thesis using co by simp
next
  case (d_hit p c)
  have "weight w ((goroutines s ! tid ev)\<lparr>pc := Acts [WG_Done dhtWG]\<rparr>) = weight w (goroutines s ! tid ev)"
    using d_hit(3,4) by (simp add: weight_def wg_of_def acts_weight_Cons)
  from weight_set_pc_same[OF d_hit(2) this] show ?thesis unfolding d_hit(7) using co by simp
next
  case (d_miss p c)
  have "weight w ((goroutines s ! tid ev)\<lparr>pc := D_Retry\<rparr>) = weight w (goroutines s ! tid ev)"
    using d_miss(3,4) by (simp add: weight_def wg_of_def)
  from weight_set_pc_same[OF d_miss(2) this] show ?thesis unfolding d_miss(7) using co by simp
next
  case (d_retry p c)
  have "weight w ((goroutines s ! tid ev)\<lparr>pc := D_Update (fst (fst (dhtPing_retry cfg ev p c))) (snd (fst (dhtPing_retry cfg ev p c)))\<rparr>)
       = weight w (goroutines s ! tid ev)"
    using d_retry(3,4) by (simp add: weight_def wg_of_def)
  from weight_set_pc_effects_same[OF d_retry(2) this] show ?thesis unfolding d_retry(5) using co by simp
next
  case (d_update p c res err)
  have "weight w ((goroutines s ! tid ev)\<lparr>pc := Acts (dhtPing_rest (map_index zero_attempt (dhtVisited (node s)) (hex_EncodeToString p))
                       (dhtPing_info cfg p c err) p c res)\<rparr>) = weight w (goroutines s ! tid ev)"
    using d_update(3,4) by (auto simp add: weight_def wg_of_def acts_weight_rest)
  from weight_set_pc_same[of "tid ev" "s\<lparr>node := (node s)\<lparr>dhtMutex := True,
                     dhtVisited := dhtPing_write (hex_EncodeToString p) (dhtPing_info cfg p c err) (dhtVisited (node s))\<rparr>\<rparr>" w]
    d_update(2) this
  show ?thesis unfolding d_update(6) using co by (cases w) simp_all
next
  case (n_hit p c)
  have "weight w ((goroutines s ! tid ev)\<lparr>pc := Acts [WG_Done nodeInfoWG]\<rparr>) = weight w (goroutines s ! tid ev)"
    using n_hit(3,4) by (simp add: weight_def wg_of_def acts_weight_Cons)
  from weight_set_pc_same[OF n_hit(2) this] show ?thesis unfolding n_hit(7) using co by simp
next
  case (n_miss p c)
  have "weight w ((goroutines s ! tid ev)\<lparr>pc := N_Retry\<rparr>) = weight w (goroutines s ! tid ev)"
    using n_miss(3,4) by (simp add: weight_def wg_of_def)
  from weight_set_pc_same[OF n_miss(2) this] show ?thesis unfolding n_miss(7) using co by simp
next
  case (n_fail p c)
  have "weight w ((goroutines s ! tid ev)\<lparr>pc := Acts [WG_Done nodeInfoWG]\<rparr>) = weight w (goroutines s ! tid ev)"
    using n_fail(3,4) by (simp add: weight_def wg_of_def acts_weight_Cons)
  from weight_set_pc_effects_same[OF n_fail(2) this] show ?thesis unfolding n_fail(6) using co by simp
next
  case (n_ok p c)
  have "weight w ((goroutines s ! tid ev)\<lparr>pc := N_Store (fst (fst (nodeInfo_retry cfg ev p c)))\<rparr>) = weight w (goroutines s ! tid ev)"
    using n_ok(3,4) by (simp add: weight_def wg_of_def)
  from weight_set_pc_effects_same[OF n_ok(2) this] show ?thesis unfolding n_ok(6) using co by simp
next
  case (n_store p c res)
  have "weight w ((goroutines s ! tid ev)\<lparr>pc := Acts [Unlock nodeInfoMu, WG_Done nodeInfoWG]\<rparr>) = weight w (goroutines s ! tid ev)"
    using n_store(3,4) by (simp add: weight_def wg_of_def acts_weight_Cons)
  from weight_set_pc_same[of "tid ev" "nodeInfo_store cfg p res (s\<lparr>node := (node s)\<lparr>nodeInfoMutex := True\<rparr>\<rparr>)" w]
    n_store(2) this
  show ?thesis unfolding n_store(6) using co by (cases w) simp_all
next
  case (act a as s1)
  let ?g = "goroutines s ! tid ev"
  have np1: "\<not> panicked s1" using np act(5) by simp
  have c1: "counter w (node s') = counter w (node s) +
           (case a of WG_Add w' \<Rightarrow> if w' = w then 1 else 0 | WG_Done w' \<Rightarrow> if w' = w then - 1 else 0 | _ \<Rightarrow> 0)"
    unfolding act(5) using do_action_counter[OF act(4) np1, of w] by simp
  have g1: "total (weight w) (goroutines s') =
      total (weight w) (goroutines s) - weight w ?g + weight w (?g\<lparr>pc := Acts as\<rparr>)
        + total (weight w) (case a of Go c \<Rightarrow> [spawn c] | _ \<Rightarrow> [])"
    unfolding act(5) act_goroutines[OF act(4) act(2)] using act(2) by (rule total_append_update_int)
  have w0: "weight w ?g = acts_weight w as +
     (case a of Go c \<Rightarrow> of_bool (wg_of c = Some w) | WG_Add w' \<Rightarrow> - of_bool (w' = w)
        | WG_Done w' \<Rightarrow> of_bool (w' = w) | _ \<Rightarrow> 0)"
    using act(3) by (simp add: weight_def acts_weight_Cons)
  have w1: "weight w (?g\<lparr>pc := Acts as\<rparr>) = acts_weight w as" by (simp add: weight_pc)
  show ?thesis
    unfolding c1 g1 w0 w1 using co by (cases a) (simp_all add: weight_spawn)
qed

lemma holding_step:
  assumes st: "step cfg ev s = s'" and np: "\<not> panicked s'"
    and lk: "total (holding m) (goroutines s) \<le> of_bool (locked m (node s))"
  shows "total (holding m) (goroutines s') \<le> of_bool (locked m (node s'))"
  using st
proof (cases rule: step_cases)
  case stutter
  then show ?thesis using lk by simp
next
  case (d_hit p c)
  have "total (holding m) (goroutines s') + holding m (goroutines s ! tid ev) = total (holding m) (goroutines s)"
    unfolding d_hit(7) using total_update[OF d_hit(2), of "holding m"] by (simp add: holding_pc)
  then show ?thesis using lk d_hit(7) by simp
next
  case (d_miss p c)
  have "total (holding m) (goroutines s') + holding m (goroutines s ! tid ev) = total (holding m) (goroutines s)"
    unfolding d_miss(7) using total_update[OF d_miss(2), of "holding m"] by (simp add: holding_pc)
  then show ?thesis using lk d_miss(7) by simp
next
  case (d_retry p c)
  have "total (holding m) (goroutines s') + holding m (goroutines s ! tid ev) = total (holding m) (goroutines s)"
    unfolding d_retry(5) using total_update[OF d_retry(2), of "holding m"] d_retry(2) by (simp add: holding_pc)
  then show ?thesis using lk d_retry(5) by simp
next
  case (d_update p c res err)
  have h0: "holding m (goroutines s ! tid ev) = 0" using d_update(4) by (simp add: holding_def acts_def)
  have "total (holding m) (goroutines s') + holding m (goroutines s ! tid ev) =
        total (holding m) (goroutines s) + of_bool (m = dhtMu)"
    unfolding d_update(6) using total_update[OF d_update(2), of "holding m"] by (simp add: holding_pc holding_rest)
  then show ?thesis using lk d_update(5,6) h0 by (cases m) simp_all
next
  case (n_hit p c)
  have "total (holding m) (goroutines s') + holding m (goroutines s ! tid ev) = total (holding m) (goroutines s)"
    unfolding n_hit(7) using total_update[OF n_hit(2), of "holding m"] by (simp add: holding_pc)
  then show ?thesis using lk n_hit(7) by simp
next
  case (n_miss p c)
  have "total (holding m) (goroutines s') + holding m (goroutines s ! tid ev) = total (holding m) (goroutines s)"
    unfolding n_miss(7) using total_update[OF n_miss(2), of "holding m"] by (simp add: holding_pc)
  then show ?thesis using lk n_miss(7) by simp
next
  case (n_fail p c)
  have "total (holding m) (goroutines s') + holding m (goroutines s ! tid ev) = total (holding m) (goroutines s)"
    unfolding n_fail(6) using total_update[OF n_fail(2), of "holding m"] n_fail(2) by (simp add: holding_pc)
  then show ?thesis using lk n_fail(6) by simp
next
  case (n_ok p c)
  have "total (holding m) (goroutines s') + holding m (goroutines s ! tid ev) = total (holding m) (goroutines s)"
    unfolding n_ok(6) using total_update[OF n_ok(2), of "holding m"] n_ok(2) by (simp add: holding_pc)
  then show ?thesis using lk n_ok(6) by simp
next
  case (n_store p c res)
  have h0: "holding m (goroutines s ! tid ev) = 0" using n_store(4) by (simp add: holding_def acts_def)
  have "total (holding m) (goroutines s') + holding m (goroutines s ! tid ev) =
        total (holding m) (goroutines s) + of_bool (m = nodeInfoMu)"
    unfolding n_store(6) using total_update[OF n_store(2), of "holding m"] by (simp add: holding_pc)
  then show ?thesis using lk n_store(5,6) h0 by (cases m) simp_all
next
  case (act a as s1)
  let ?g = "goroutines s ! tid ev"
  have np1: "\<not> panicked s1" using np act(5) by simp
  have l1: "locked m (node s') =
           (case a of Lock m' \<Rightarrow> if m' = m then True else locked m (node s)
                    | Unlock m' \<Rightarrow> if m' = m then False else locked m (node s)
                    | _ \<Rightarrow> locked m (node s))"
    unfolding act(5) using do_action_locked[OF act(4) np1, of m] by simp
  have g1: "total (holding m) (goroutines s') + holding m ?g =
      total (holding m) (goroutines s) + holding m (?g\<lparr>pc := Acts as\<rparr>)
        + total (holding m) (case a of Go c \<Rightarrow> [spawn c] | _ \<Rightarrow> [])"
    unfolding act(5) act_goroutines[OF act(4) act(2)] using act(2) by (rule total_append_update_nat)
  have h0: "holding m ?g = count_list as (Unlock m) + of_bool (a = Unlock m)"
    using act(3) by (simp add: holding_def acts_def)
  have h1: "holding m (?g\<lparr>pc := Acts as\<rparr>) = count_list as (Unlock m)" by (simp add: holding_pc)
  have sp: "total (holding m) (case a of Go c \<Rightarrow> [spawn c] | _ \<Rightarrow> []) = 0" by (cases a) simp_all
  from g1 have g2: "total (holding m) (goroutines s') + of_bool (a = Unlock m) = total (holding m) (goroutines s)"
    unfolding h0 h1 sp by simp
  show ?thesis
  proof (cases a)
    case (Unlock m')
    then show ?thesis using g2 l1 lk by (cases "m' = m"; cases "locked m (node s)") (simp_all split: if_splits)
  next
    case (Lock m')
    then show ?thesis using g2 l1 lk by (cases "m' = m"; cases "locked m (node s)") (simp_all split: if_splits)
  qed (use g2 l1 lk in simp_all)
qed


lemma weight_nonneg: "shape cfg g \<Longrightarrow> 0 \<le> weight w g"
  by (simp add: weight_owed)

lemma panic_step:
  assumes st: "step cfg ev s = s'" and c: "core cfg s"
  shows "\<not> panicked s'"
proof -
  from c have np: "\<not> panicked s" and sh: "\<forall>g \<in> set (goroutines s). shape cfg g"
    and co: "\<forall>w. counter w (node s) = total (weight w) (goroutines s)"
    and lk: "\<forall>m. total (holding m) (goroutines s) \<le> of_bool (locked m (node s))"
    by (simp_all add: core_def)
  from st show ?thesis
  proof (cases rule: step_cases)
    case (act a as s1)
    let ?g = "goroutines s ! tid ev"
    have shg: "shape cfg ?g" using sh act(2) by simp
    have "\<not> panicked s1"
    proof (cases a)
      case (Unlock m)
      have "1 \<le> holding m ?g" using act(3) Unlock by (simp add: holding_def acts_def)
      also have "\<dots> \<le> total (holding m) (goroutines s)" using act(2) by (rule total_ge)
      finally have "locked m (node s)" using lk[rule_format, of m] by (cases "locked m (node s)") simp_all
      then show ?thesis using do_action_panicked[OF act(4) np] Unlock by simp
    next
      case (WG_Done w)
      have "weight w ?g = int (owed w ?g)" using shg by (rule weight_owed)
      moreover have "running w ?g"
      proof (cases "func ?g")
        case main
        with shg act(3) WG_Done have "suffix (WG_Done w # as) (main_body cfg)" by (simp add: shape_def)
        from suffix_main_body[OF this] show ?thesis by (simp add: main_body_def)
      next
        case (dhtPing p c)
        with shg act(3) WG_Done show ?thesis by (simp add: shape_def running_def wg_of_def)
      next
        case (nodeInfo p c)
        with shg act(3) WG_Done show ?thesis by (auto simp add: shape_def running_def wg_of_def)
      qed
      ultimately have "1 \<le> weight w ?g" by (simp add: owed_def)
      also have "\<dots> \<le> total (weight w) (goroutines s)"
      proof (rule total_ge_int[OF _ act(2)])
        show "\<forall>x\<in>set (goroutines s). 0 \<le> weight w x" using sh weight_nonneg by blast
      qed
      finally have "1 \<le> counter w (node s)" using co by simp
      then show ?thesis using do_action_panicked[OF act(4) np] WG_Done by simp
    qed (use do_action_panicked[OF act(4) np] in simp_all)
    then show ?thesis using act(5) by simp
  qed (use np in simp_all)
qed

lemma core_step:
  assumes st: "step cfg ev s = s'" and c: "core cfg s"
  shows "core cfg s'"
proof -
  have np: "\<not> panicked s'" using st c by (rule panic_step)
  from c have ne: "goroutines s \<noteq> []"
    and mo: "\<forall>t < length (goroutines s). func (goroutines s ! t) = main \<longleftrightarrow> t = 0"
    and sh: "\<forall>g \<in> set (goroutines s). shape cfg g"
    and co: "\<forall>w. counter w (node s) = total (weight w) (goroutines s)"
    and lk: "\<forall>m. total (holding m) (goroutines s) \<le> of_bool (locked m (node s))"
    by (simp_all add: core_def)
  have 1: "goroutines s' \<noteq> [] \<and> (\<forall>t < length (goroutines s'). func (goroutines s' ! t) = main \<longleftrightarrow> t = 0)"
    using st ne mo sh by (rule main_only_step)
  have 2: "\<forall>g \<in> set (goroutines s'). shape cfg g" using st sh by (rule shape_step)
  have 3: "counter w (node s') = total (weight w) (goroutines s')" for w
    using st np co[rule_format, of w] by (rule counter_step)
  have 4: "total (holding m) (goroutines s') \<le> of_bool (locked m (node s'))" for m
    using st np lk[rule_format, of m] by (rule holding_step)
  show ?thesis unfolding core_def using np 1 2 3 4 by blast
qed

lemma core_init: "core cfg (init cfg)"
proof -
  have "shape cfg \<lparr>func = main, pc = Acts (main_body cfg), effects = []\<rparr>"
    by (simp add: shape_def)
  moreover have "weight w \<lparr>func = main, pc = Acts (main_body cfg), effects = []\<rparr> = 0" for w
    by (cases w) (simp_all add: weight_def main_body_def acts_weight_Cons wg_of_def)
  moreover have "holding m \<lparr>func = main, pc = Acts (main_body cfg), effects = []\<rparr> = 0" for m
    by (simp add: holding_def acts_def main_body_def)
  ultimately show ?thesis
    unfolding core_def init_def by (auto simp: counter_def split: wait_group.splits)
qed

lemma core_exec: "core cfg s \<Longrightarrow> core cfg (exec cfg evs s)"
  by (induction evs arbitrary: s) (simp_all add: core_step)

subsection \<open>When the main flow passes its waits\<close>

lemma running_counter:
  assumes c: "core cfg s" and t: "t < length (goroutines s)" and r: "running w (goroutines s ! t)"
  shows "1 \<le> counter w (node s)"
proof -
  from c have sh: "\<forall>g \<in> set (goroutines s). shape cfg g"
    and co: "counter w (node s) = total (weight w) (goroutines s)"
    by (simp_all add: core_def)
  have "1 \<le> owed w (goroutines s ! t)" using r by (simp add: owed_def)
  also have "\<dots> \<le> total (owed w) (goroutines s)" using t by (rule total_ge)
  finally have "1 \<le> int (total (owed w) (goroutines s))" by simp
  then show ?thesis using co total_weight_owed[OF sh, of w] by simp
qed

lemma counters_zero_returned:
  assumes c: "core cfg s" and z: "dhtWaitGroup (node s) = 0" "nodeInfoWaitGroup (node s) = 0"
    and t: "t < length (goroutines s)" "t \<noteq> 0"
  shows "pc (goroutines s ! t) = Acts []"
proof (rule ccontr)
  assume n: "pc (goroutines s ! t) \<noteq> Acts []"
  from c t have "func (goroutines s ! t) \<noteq> main" by (simp add: core_def)
  then obtain w where "wg_of (func (goroutines s ! t)) = Some w"
    by (cases "func (goroutines s ! t)") (simp_all add: wg_of_def)
  with n have "running w (goroutines s ! t)" by (simp add: running_def)
  from running_counter[OF c t(1) this] z show False by (cases w) simp_all
qed

lemma main_acts:
  assumes c: "core cfg s"
  shows "pc (goroutines s ! 0) = Acts (acts (goroutines s ! 0)) \<and> suffix (acts (goroutines s ! 0)) (main_body cfg)"
proof -
  from c have "goroutines s \<noteq> []" "func (goroutines s ! 0) = main" "\<forall>g \<in> set (goroutines s). shape cfg g"
    by (simp_all add: core_def)
  then have "shape cfg (goroutines s ! 0)" "func (goroutines s ! 0) = main" by simp_all
  then show ?thesis by (auto simp: shape_def acts_def)
qed

lemma step_returned:
  assumes "pc (goroutines s ! tid ev) = Acts []"
  shows "step cfg ev s = s"
proof -
  obtain s' where s': "step cfg ev s = s'" by simp
  from s' have "s' = s" by (cases rule: step_cases) (use assms in simp_all)
  with s' show ?thesis by simp
qed

lemma step_node_non_act:
  assumes "step cfg ev s = s'"
  shows "(\<exists>a as. tid ev < length (goroutines s) \<and> pc (goroutines s ! tid ev) = Acts (a # as)) \<or>
         (dhtWaitGroup (node s') = dhtWaitGroup (node s) \<and> nodeInfoWaitGroup (node s') = nodeInfoWaitGroup (node s))"
  using assms by (cases rule: step_cases) auto

lemma step_other:
  assumes st: "step cfg ev s = s'" and t: "t < length (goroutines s)" "t \<noteq> tid ev"
  shows "goroutines s' ! t = goroutines s ! t"
proof -
  from step_goroutines[OF st] obtain g' new where "goroutines s' = (goroutines s)[tid ev := g'] @ new"
    by blast
  then show ?thesis using t by (simp add: nth_append)
qed

lemma drained_step:
  assumes st: "step cfg ev s = s'" and i: "inv cfg s"
  shows "inv cfg s'"
proof -
  from i have c: "core cfg s"
    and d1: "WG_Wait dhtWG \<notin> set (acts (goroutines s ! 0)) \<longrightarrow> dhtWaitGroup (node s) = 0"
    and d2: "WG_Wait nodeInfoWG \<notin> set (acts (goroutines s ! 0)) \<longrightarrow> nodeInfoWaitGroup (node s) = 0"
    by (simp_all add: inv_def)
  have c': "core cfg s'" using st c by (rule core_step)
  have np': "\<not> panicked s'" using c' by (simp add: core_def)
  from c have ne: "goroutines s \<noteq> []"
    and mo: "\<forall>t < length (goroutines s). func (goroutines s ! t) = main \<longleftrightarrow> t = 0"
    and sh: "\<forall>g \<in> set (goroutines s). shape cfg g"
    by (simp_all add: core_def)
  from main_acts[OF c] have m0: "pc (goroutines s ! 0) = Acts (acts (goroutines s ! 0))"
    and sf: "suffix (acts (goroutines s ! 0)) (main_body cfg)" by simp_all
  have wn: "WG_Wait nodeInfoWG \<notin> set (acts (goroutines s ! 0)) \<Longrightarrow> WG_Wait dhtWG \<notin> set (acts (goroutines s ! 0))"
    using suffix_main_body[OF sf] by (auto simp: main_body_def)
  have "(WG_Wait dhtWG \<notin> set (acts (goroutines s' ! 0)) \<longrightarrow> dhtWaitGroup (node s') = 0) \<and>
        (WG_Wait nodeInfoWG \<notin> set (acts (goroutines s' ! 0)) \<longrightarrow> nodeInfoWaitGroup (node s') = 0)"
  proof (cases "tid ev < length (goroutines s) \<and> (\<exists>a as. pc (goroutines s ! tid ev) = Acts (a # as))")
    case False
    with step_node_non_act[OF st]
    have same: "dhtWaitGroup (node s') = dhtWaitGroup (node s)" "nodeInfoWaitGroup (node s') = nodeInfoWaitGroup (node s)"
      by auto
    have "goroutines s' ! 0 = goroutines s ! 0"
    proof (cases "tid ev = 0")
      case True
      with False m0 ne have "acts (goroutines s ! 0) = []" by (cases "acts (goroutines s ! 0)") auto
      with m0 True ne have "pc (goroutines s ! tid ev) = Acts []" by simp
      with st True have "s' = s" using step_returned[of s ev cfg] by simp
      then show ?thesis by simp
    next
      case nz: False
      from ne have "0 < length (goroutines s)" by simp
      from step_other[OF st this] nz show ?thesis by simp
    qed
    then show ?thesis using same d1 d2 by simp
  next
    case True
    then obtain a as where lt: "tid ev < length (goroutines s)" and pa: "pc (goroutines s ! tid ev) = Acts (a # as)"
      by blast
    from st show ?thesis
    proof (cases rule: step_cases)
      case stutter
      then show ?thesis using d1 d2 by simp
    next
      case (act a' as' s1)
      with pa have aa: "a' = a" "as' = as" by simp_all
      have np1: "\<not> panicked s1" using np' act(5) by simp
      have cnt: "counter w (node s') = counter w (node s) +
           (case a of WG_Add w' \<Rightarrow> if w' = w then 1 else 0 | WG_Done w' \<Rightarrow> if w' = w then - 1 else 0 | _ \<Rightarrow> 0)" for w
        unfolding act(5) using do_action_counter[OF act(4) np1, of w] aa by simp
      have en: "case a of WG_Wait w \<Rightarrow> counter w (node s) = 0 | Lock m \<Rightarrow> \<not> locked m (node s) | _ \<Rightarrow> True"
        using do_action_enabled[OF act(4)] aa by simp
      show ?thesis
      proof (cases "tid ev = 0")
        case True
        with pa m0 have as0: "acts (goroutines s ! 0) = a # as" by simp
        have g0: "goroutines s' ! 0 = (goroutines s ! 0)\<lparr>pc := Acts as\<rparr>"
          unfolding act(5) act_goroutines[OF act(4) act(2)] using True ne aa by (simp add: nth_append)
        then have as1: "acts (goroutines s' ! 0) = as" by (simp add: acts_def)
        from suffix_main_body[OF sf] as0
        show ?thesis unfolding as1 using d1 d2 en cnt[of dhtWG] cnt[of nodeInfoWG]
          by (auto simp: main_body_def)
      next
        case nz: False
        from ne have "0 < length (goroutines s)" by simp
        from step_other[OF st this] nz have g0: "goroutines s' ! 0 = goroutines s ! 0" by simp
        from mo lt nz have nm: "func (goroutines s ! tid ev) \<noteq> main" by simp
        have shg: "shape cfg (goroutines s ! tid ev)" using sh lt by simp
        show ?thesis
        proof (cases "func (goroutines s ! tid ev)")
          case main
          with nm show ?thesis by simp
        next
          case (dhtPing p c)
          with pa have "running dhtWG (goroutines s ! tid ev)" by (simp add: running_def wg_of_def)
          from running_counter[OF c lt this] have pos: "1 \<le> dhtWaitGroup (node s)" by simp
          with d1 have w1: "WG_Wait dhtWG \<in> set (acts (goroutines s ! 0))" by auto
          with wn have w2: "WG_Wait nodeInfoWG \<in> set (acts (goroutines s ! 0))" by auto
          show ?thesis unfolding g0 using w1 w2 by simp
        next
          case (nodeInfo p c)
          with shg pa have a: "a = Unlock nodeInfoMu \<or> a = WG_Done nodeInfoWG" by (auto simp: shape_def)
          from nodeInfo pa have "running nodeInfoWG (goroutines s ! tid ev)" by (simp add: running_def wg_of_def)
          from running_counter[OF c lt this] have pos: "1 \<le> nodeInfoWaitGroup (node s)" by simp
          with d2 have w2: "WG_Wait nodeInfoWG \<in> set (acts (goroutines s ! 0))" by auto
          have "dhtWaitGroup (node s') = dhtWaitGroup (node s)" using cnt[of dhtWG] a by auto
          then show ?thesis unfolding g0 using w2 d1 by simp
        qed
      qed
    qed (use pa in simp_all)
  qed
  with c' show ?thesis by (simp add: inv_def)
qed

lemma inv_init: "inv cfg (init cfg)"
  using core_init[of cfg] by (simp add: inv_def init_def acts_def main_body_def)

lemma inv_exec: "inv cfg s \<Longrightarrow> inv cfg (exec cfg evs s)"
  by (induction evs arbitrary: s) (simp_all add: drained_step)

subsection \<open>Metadata fetches and the found flag\<close>

lemma fetches_effects [simp]: "fetches key (g\<lparr>effects := e\<rparr>) = fetches key g"
  by (simp add: fetches_def is_fetch_def acts_def)

lemma fetches_pc:
  "fetches key (g\<lparr>pc := q\<rparr>) = of_bool (is_fetch key g) + (case q of Acts as \<Rightarrow> length (filter (is_Go_fetch key) as) | _ \<Rightarrow> 0)"
  by (cases q) (simp_all add: fetches_def is_fetch_def acts_def)

lemma fetches_spawn: "fetches key (spawn c) = of_bool (is_Go_fetch key (Go c))"
  by (cases c) (simp_all add: fetches_def is_fetch_def is_Go_fetch_def acts_def spawn_def)

lemma fetches_rest:
  "length (filter (is_Go_fetch key) (dhtPing_rest oldInfo info p c res)) =
     of_bool (\<not> Found oldInfo \<and> Found info \<and> hex_EncodeToString p = key)"
proof -
  have "filter (is_Go_fetch key) (concat (map (\<lambda>i. [WG_Add dhtWG, Go (dhtPing (PublicKey i) (entry_Coords i))]) rs)) = []" for rs
    by (induction rs) (simp_all add: is_Go_fetch_def)
  then show ?thesis by (simp add: dhtPing_rest_def is_Go_fetch_def)
qed

lemma fetches_set_pc_same:
  assumes "t < length (goroutines s)" "fetches key ((goroutines s ! t)\<lparr>pc := q\<rparr>) = fetches key (goroutines s ! t)"
  shows "total (fetches key) (goroutines (set_pc t q s)) = total (fetches key) (goroutines s)"
  using assms total_update[of t "goroutines s" "fetches key" "(goroutines s ! t)\<lparr>pc := q\<rparr>"] by simp

lemma fetches_set_pc_effects_same:
  assumes "t < length (goroutines s)" "fetches key ((goroutines s ! t)\<lparr>pc := q\<rparr>) = fetches key (goroutines s ! t)"
  shows "total (fetches key) (goroutines (set_pc t q (add_effects t tr s))) = total (fetches key) (goroutines s)"
proof -
  have "fetches key ((goroutines s ! t)\<lparr>effects := effects (goroutines s ! t) @ tr, pc := q\<rparr>)
      = fetches key ((goroutines s ! t)\<lparr>pc := q\<rparr>)"
    by (simp add: fetches_def is_fetch_def acts_def)
  then show ?thesis
    using assms total_update[of t "goroutines s" "fetches key"
       "(goroutines s ! t)\<lparr>effects := effects (goroutines s ! t) @ tr, pc := q\<rparr>"] by simp
qed

lemma fetch_step:
  assumes st: "step cfg ev s = s'"
    and j: "total (fetches key) (goroutines s) = of_bool (found_in s key)"
  shows "total (fetches key) (goroutines s') = of_bool (found_in s' key)"
  using st
proof (cases rule: step_cases)
  case stutter
  then show ?thesis using j by simp
next
  case (d_hit p c)
  have "fetches key ((goroutines s ! tid ev)\<lparr>pc := Acts [WG_Done dhtWG]\<rparr>) = fetches key (goroutines s ! tid ev)"
    using d_hit(3,4) by (simp add: fetches_def is_fetch_def acts_def is_Go_fetch_def)
  from fetches_set_pc_same[OF d_hit(2) this] show ?thesis unfolding d_hit(7) using j by (simp add: found_in_def)
next
  case (d_miss p c)
  have "fetches key ((goroutines s ! tid ev)\<lparr>pc := D_Retry\<rparr>) = fetches key (goroutines s ! tid ev)"
    using d_miss(3,4) by (simp add: fetches_def is_fetch_def acts_def is_Go_fetch_def)
  from fetches_set_pc_same[OF d_miss(2) this] show ?thesis unfolding d_miss(7) using j by (simp add: found_in_def)
next
  case (d_retry p c)
  have "fetches key ((goroutines s ! tid ev)\<lparr>pc := D_Update (fst (fst (dhtPing_retry cfg ev p c))) (snd (fst (dhtPing_retry cfg ev p c)))\<rparr>)
     = fetches key (goroutines s ! tid ev)"
    using d_retry(3,4) by (simp add: fetches_def is_fetch_def acts_def is_Go_fetch_def)
  from fetches_set_pc_effects_same[OF d_retry(2) this] show ?thesis unfolding d_retry(5) using j by (simp add: found_in_def)
next
  case (d_update p c res err)
  let ?k = "hex_EncodeToString p"
  let ?old = "map_index zero_attempt (dhtVisited (node s)) ?k"
  let ?info = "dhtPing_info cfg p c err"
  let ?g = "goroutines s ! tid ev"
  have f0: "fetches key ?g = 0" using d_update(3,4) by (simp add: fetches_def is_fetch_def acts_def)
  have f1: "fetches key (?g\<lparr>pc := Acts (dhtPing_rest ?old ?info p c res)\<rparr>)
      = of_bool (\<not> Found ?old \<and> Found ?info \<and> ?k = key)"
    using d_update(3) by (simp add: fetches_pc is_fetch_def fetches_rest)
  have t: "total (fetches key) (goroutines s') + fetches key ?g
      = total (fetches key) (goroutines s) + of_bool (\<not> Found ?old \<and> Found ?info \<and> ?k = key)"
    unfolding d_update(6) using total_update[OF d_update(2), of "fetches key" "?g\<lparr>pc := Acts (dhtPing_rest ?old ?info p c res)\<rparr>"] f1
    by simp
  have fnd: "found_in s' key = (if key = ?k \<and> (Found ?info \<or> \<not> Found ?old) then Found ?info else found_in s key)"
    unfolding d_update(6) by (simp add: found_in_def dhtPing_write_index)
  show ?thesis using t f0 j fnd by (auto simp: found_in_def)
next
  case (n_hit p c)
  have "fetches key ((goroutines s ! tid ev)\<lparr>pc := Acts [WG_Done nodeInfoWG]\<rparr>) = fetches key (goroutines s ! tid ev)"
    using n_hit(3,4) by (simp add: fetches_def is_fetch_def acts_def is_Go_fetch_def)
  from fetches_set_pc_same[OF n_hit(2) this] show ?thesis unfolding n_hit(7) using j by (simp add: found_in_def)
next
  case (n_miss p c)
  have "fetches key ((goroutines s ! tid ev)\<lparr>pc := N_Retry\<rparr>) = fetches key (goroutines s ! tid ev)"
    using n_miss(3,4) by (simp add: fetches_def is_fetch_def acts_def is_Go_fetch_def)
  from fetches_set_pc_same[OF n_miss(2) this] show ?thesis unfolding n_miss(7) using j by (simp add: found_in_def)
next
  case (n_fail p c)
  have "fetches key ((goroutines s ! tid ev)\<lparr>pc := Acts [WG_Done nodeInfoWG]\<rparr>) = fetches key (goroutines s ! tid ev)"
    using n_fail(3,4) by (simp add: fetches_def is_fetch_def acts_def is_Go_fetch_def)
  from fetches_set_pc_effects_same[OF n_fail(2) this] show ?thesis unfolding n_fail(6) using j by (simp add: found_in_def)
next
  case (n_ok p c)
  have "fetches key ((goroutines s ! tid ev)\<lparr>pc := N_Store (fst (fst (nodeInfo_retry cfg ev p c)))\<rparr>) = fetches key (goroutines s ! tid ev)"
    using n_ok(3,4) by (simp add: fetches_def is_fetch_def acts_def is_Go_fetch_def)
  from fetches_set_pc_effects_same[OF n_ok(2) this] show ?thesis unfolding n_ok(6) using j by (simp add: found_in_def)
next
  case (n_store p c res)
  have "fetches key ((goroutines s ! tid ev)\<lparr>pc := Acts [Unlock nodeInfoMu, WG_Done nodeInfoWG]\<rparr>) = fetches key (goroutines s ! tid ev)"
    using n_store(3,4) by (simp add: fetches_def is_fetch_def acts_def is_Go_fetch_def)
  from fetches_set_pc_same[of "tid ev" "nodeInfo_store cfg p res (s\<lparr>node := (node s)\<lparr>nodeInfoMutex := True\<rparr>\<rparr>)" key]
    n_store(2) this
  show ?thesis unfolding n_store(6) using j by (simp add: found_in_def)
next
  case (act a as s1)
  let ?g = "goroutines s ! tid ev"
  have g1: "total (fetches key) (goroutines s') + fetches key ?g =
      total (fetches key) (goroutines s) + fetches key (?g\<lparr>pc := Acts as\<rparr>)
        + total (fetches key) (case a of Go c \<Rightarrow> [spawn c] | _ \<Rightarrow> [])"
    unfolding act(5) act_goroutines[OF act(4) act(2)] using act(2) by (rule total_append_update_nat)
  have f0: "fetches key ?g = of_bool (is_fetch key ?g) + of_bool (is_Go_fetch key a) + length (filter (is_Go_fetch key) as)"
    using act(3) by (simp add: fetches_def acts_def)
  have f1: "fetches key (?g\<lparr>pc := Acts as\<rparr>) = of_bool (is_fetch key ?g) + length (filter (is_Go_fetch key) as)"
    by (simp add: fetches_pc)
  have sp: "total (fetches key) (case a of Go c \<Rightarrow> [spawn c] | _ \<Rightarrow> []) = of_bool (is_Go_fetch key a)"
    by (cases a) (simp_all add: fetches_spawn is_Go_fetch_def)
  have "found_in s' key = found_in s key"
    unfolding act(5) using do_action_maps(1)[OF act(4)] by (simp add: found_in_def)
  then show ?thesis using g1 j unfolding f0 f1 sp by simp
qed

lemma fetch_init: "total (fetches key) (goroutines (init cfg)) = of_bool (found_in (init cfg) key)"
  by (simp add: init_def found_in_def fetches_def is_fetch_def acts_def main_body_def is_Go_fetch_def
        map_index_def zero_attempt_def)

lemma fetch_exec:
  "total (fetches key) (goroutines s) = of_bool (found_in s key) \<Longrightarrow>
   total (fetches key) (goroutines (exec cfg evs s)) = of_bool (found_in (exec cfg evs s) key)"
  by (induction evs arbitrary: s) (simp_all add: fetch_step)

subsection \<open>The conditional write\<close>

lemma crawler_write_index:
  "map_index crawler_zero_attempt (crawler_dhtPing_write key info m) k =
     (if k = key \<and> (crawler_found info \<or> \<not> crawler_found (map_index crawler_zero_attempt m key)) then info
      else map_index crawler_zero_attempt m k)"
  by (simp add: crawler_dhtPing_write_def Let_def map_index_update)

lemma crawler_fold_found:
  "crawler_found (map_index crawler_zero_attempt m k) \<Longrightarrow>
   crawler_found (map_index crawler_zero_attempt (fold (\<lambda>(p, i). crawler_dhtPing_write p i) probes m) k)"
proof (induction probes arbitrary: m)
  case Nil
  then show ?case by simp
next
  case (Cons x probes)
  obtain p i where x: "x = (p, i)" by (cases x)
  have "crawler_found (map_index crawler_zero_attempt (crawler_dhtPing_write p i m) k)"
    using Cons.prems by (auto simp: crawler_write_index)
  from Cons.IH[OF this] show ?case using x by simp
qed

lemma map_of_index: "map_of m k = Some v \<Longrightarrow> map_index z m k = v"
  by (simp add: map_index_def)

lemma dhtPing_write_overwrites:
  "map_of (dhtPing_write key info visited) key = Some info \<longleftrightarrow>
     Found info \<or> \<not> Found (map_index zero_attempt visited key)"
proof (cases "Found info \<or> \<not> Found (map_index zero_attempt visited key)")
  case True
  then show ?thesis by (auto simp: dhtPing_write_def Let_def update_conv')
next
  case False
  then have "dhtPing_write key info visited = visited" by (simp add: dhtPing_write_def)
  moreover have "map_of visited key \<noteq> Some info" using False map_of_index[of visited key info zero_attempt] by auto
  ultimately show ?thesis using False by simp
qed

lemma crawler_write_overwrites:
  "map_of (crawler_dhtPing_write key info visited) key = Some info \<longleftrightarrow>
     crawler_found info \<or> \<not> crawler_found (map_index crawler_zero_attempt visited key)"
proof (cases "crawler_found info \<or> \<not> crawler_found (map_index crawler_zero_attempt visited key)")
  case True
  then show ?thesis by (auto simp: crawler_dhtPing_write_def Let_def update_conv')
next
  case False
  then have "crawler_dhtPing_write key info visited = visited" by (simp add: crawler_dhtPing_write_def)
  moreover have "map_of visited key \<noteq> Some info" using False map_of_index[of visited key info crawler_zero_attempt] by auto
  ultimately show ?thesis using False by simp
qed

subsection \<open>Counting the metadata fetches\<close>

lemma filter_le_total:
  "length (filter (is_fetch key) gs) \<le> total (fetches key) gs"
  by (induction gs) (simp_all add: fetches_def)

lemma filter_length_mono:
  "(\<And>x. P x \<Longrightarrow> Q x) \<Longrightarrow> length (filter P xs) \<le> length (filter Q xs)"
  by (induction xs) auto

lemma nodeInfo_of_le:
  "length (filter (is_nodeInfo_of pubkey) gs) \<le> length (filter (is_fetch (hex_EncodeToString pubkey)) gs)"
  by (rule filter_length_mono) (auto simp: is_nodeInfo_of_def is_fetch_def split: call.splits)

lemma fetch_reachable:
  "total (fetches key) (goroutines (exec cfg evs (init cfg))) = of_bool (found_in (exec cfg evs (init cfg)) key)"
  by (rule fetch_exec) (rule fetch_init)

lemma Go_nodeInfo_rest:
  "Go (nodeInfo p c) \<in> set (dhtPing_rest oldInfo info pubkey coords res) \<longleftrightarrow>
     \<not> Found oldInfo \<and> Found info \<and> p = pubkey \<and> c = coords"
  by (auto simp: dhtPing_rest_def)

lemma Go_nodeInfo_crawler_rest:
  "Go (nodeInfo p c) \<in> set (crawler_dhtPing_rest oldInfo info pubkey coords res) \<longleftrightarrow>
     \<not> crawler_found oldInfo \<and> crawler_found info \<and> p = pubkey \<and> c = coords"
  by (auto simp: crawler_dhtPing_rest_def)

lemma seed_found_state:
  "exec demo_cfg seed_found (init demo_cfg) =
    \<lparr>node = \<lparr>dhtWaitGroup = 1, dhtVisited = [(''01'', found_attempt [])], dhtMutex = True,
             nodeInfoWaitGroup = 1, nodeInfoVisited = [], nodeInfoMutex = False\<rparr>,
     goroutines =
       [\<lparr>func = main, pc = Acts [WG_Wait dhtWG, WG_Wait nodeInfoWG, Lock dhtMu, Lock nodeInfoMu, Aggregate], effects = []\<rparr>,
        \<lparr>func = dhtPing [1] [], pc = Acts [Unlock dhtMu, WG_Done dhtWG], effects = [Sleep 0, Invoke (DHTPing [1] [])]\<rparr>,
        \<lparr>func = nodeInfo [1] [], pc = N_Dedup, effects = []\<rparr>],
     stdout = [], written = None, panicked = False\<rparr>"
  by code_simp

subsection \<open>The counters and the outstanding work\<close>

lemma inv_reachable: "inv cfg (exec cfg evs (init cfg))"
  by (rule inv_exec) (rule inv_init)

lemma core_reachable: "core cfg (exec cfg evs (init cfg))"
  using inv_reachable[of cfg evs] by (simp add: inv_def)

lemma counter_outstanding:
  assumes "core cfg s"
  shows "counter w (node s) = int (outstanding w s)"
proof -
  from assms have sh: "\<forall>g \<in> set (goroutines s). shape cfg g"
    and co: "counter w (node s) = total (weight w) (goroutines s)"
    by (simp_all add: core_def)
  show ?thesis unfolding co outstanding_def by (rule total_weight_owed[OF sh])
qed

lemma paired_fan:
  "paired (concat (map (\<lambda>i. [WG_Add dhtWG, Go (dhtPing (PublicKey i) (entry_Coords i))]) rs) @ rest) = paired rest"
  by (induction rs) (simp_all add: wg_of_def)

lemma paired_rest: "paired (dhtPing_rest oldInfo info pubkey coords res)"
  by (simp add: dhtPing_rest_def paired_fan wg_of_def)

lemma paired_crawler_rest: "paired (crawler_dhtPing_rest oldInfo info pubkey coords res)"
  by (simp add: crawler_dhtPing_rest_def paired_fan wg_of_def)

lemma paired_main: "paired (main_body cfg)"
  by (simp add: main_body_def wg_of_def)

lemma last_rest: "last (dhtPing_rest oldInfo info pubkey coords res) = WG_Done dhtWG"
  by (simp add: dhtPing_rest_def)

lemma drained_dht:
  assumes i: "inv cfg s" and w: "WG_Wait dhtWG \<notin> set (acts (goroutines s ! 0))" and g: "g \<in> set (goroutines s)"
  shows "\<not> running dhtWG g \<and> \<not> spawning dhtWG g"
proof -
  from i have c: "core cfg s" by (simp add: inv_def)
  from i w have "dhtWaitGroup (node s) = 0" by (simp add: inv_def)
  with counter_outstanding[OF c, of dhtWG] have "total (owed dhtWG) (goroutines s) = 0"
    by (simp add: outstanding_def)
  from total_zero[OF this g] show ?thesis by (simp add: owed_def)
qed

lemma drained_all:
  assumes i: "inv cfg s" and w: "WG_Wait nodeInfoWG \<notin> set (acts (goroutines s ! 0))"
    and t: "0 < t" "t < length (goroutines s)"
  shows "returned (goroutines s ! t)"
proof -
  from i have c: "core cfg s" by (simp add: inv_def)
  from main_acts[OF c] have sf: "suffix (acts (goroutines s ! 0)) (main_body cfg)" by simp
  have w': "WG_Wait dhtWG \<notin> set (acts (goroutines s ! 0))"
    using suffix_main_body[OF sf] w by (auto simp: main_body_def)
  from i w w' have z: "dhtWaitGroup (node s) = 0" "nodeInfoWaitGroup (node s) = 0" by (simp_all add: inv_def)
  from counters_zero_returned[OF c z t(2)] t(1) show ?thesis by (simp add: returned_def)
qed

lemma nodeInfo_increment:
  assumes c: "core cfg s" and inc: "nodeInfoWaitGroup (node s) < nodeInfoWaitGroup (node (step cfg ev s))"
  shows "tid ev < length (goroutines s) \<and> (\<exists>p x. func (goroutines s ! tid ev) = dhtPing p x) \<and>
         running dhtWG (goroutines s ! tid ev) \<and> 1 \<le> dhtWaitGroup (node s)"
proof -
  obtain s' where st: "step cfg ev s = s'" by simp
  have np': "\<not> panicked s'" using core_step[OF st c] by (simp add: core_def)
  from c have sh: "\<forall>g \<in> set (goroutines s). shape cfg g" by (simp add: core_def)
  from st show ?thesis
  proof (cases rule: step_cases)
    case (act a as s1)
    have np1: "\<not> panicked s1" using np' act(5) by simp
    have "nodeInfoWaitGroup (node s') = nodeInfoWaitGroup (node s) +
           (case a of WG_Add w' \<Rightarrow> if w' = nodeInfoWG then 1 else 0 | WG_Done w' \<Rightarrow> if w' = nodeInfoWG then - 1 else 0 | _ \<Rightarrow> 0)"
      unfolding act(5) using do_action_counter[OF act(4) np1, of nodeInfoWG] by simp
    with inc st have a: "a = WG_Add nodeInfoWG" by (cases a) (auto split: if_splits)
    have shg: "shape cfg (goroutines s ! tid ev)" using sh act(2) by simp
    have "\<exists>p x. func (goroutines s ! tid ev) = dhtPing p x"
    proof (cases "func (goroutines s ! tid ev)")
      case main
      with shg act(3) a have "suffix (WG_Add nodeInfoWG # as) (main_body cfg)" by (simp add: shape_def)
      from suffix_main_body[OF this] show ?thesis by (simp add: main_body_def)
    next
      case (dhtPing p x)
      then show ?thesis by simp
    next
      case (nodeInfo p x)
      with shg act(3) a show ?thesis by (auto simp: shape_def)
    qed
    then have r: "running dhtWG (goroutines s ! tid ev)" using act(3) by (auto simp: running_def wg_of_def)
    from running_counter[OF c act(2) r] \<open>\<exists>p x. func (goroutines s ! tid ev) = dhtPing p x\<close> r act(2)
    show ?thesis by simp
  qed (use inc st in simp_all)
qed

lemma whole_run_state:
  "exec demo_cfg whole_run (init demo_cfg) =
    \<lparr>node = \<lparr>dhtWaitGroup = 0, dhtVisited = [(''01'', found_attempt [])], dhtMutex = True,
             nodeInfoWaitGroup = 0, nodeInfoVisited = [(''01'', JNull)], nodeInfoMutex = True\<rparr>,
     goroutines =
       [\<lparr>func = main, pc = Acts [], effects = []\<rparr>,
        \<lparr>func = dhtPing [1] [], pc = Acts [], effects = [Sleep 0, Invoke (DHTPing [1] [])]\<rparr>,
        \<lparr>func = nodeInfo [1] [], pc = Acts [], effects = [Sleep 0, Invoke (GetNodeInfo [1] [])]\<rparr>],
     stdout =
       [Blank, Text ''The crawl took'', Labelled ''Results written to'' ''results.json'', Blank,
        Count 1 ''nodes were processed'', Count 1 ''nodes were found'', Count 0 ''nodes were not found'', Blank,
        Count 1 ''nodes responded with nodeinfo'', Count 0 ''nodes did not respond with nodeinfo''],
     written = Some \<lparr>Meta = \<lparr>NodesAttempted = 1, NodesSuccessful = 1, NodesFailed = 0,
                              NodeInfoSuccessful = 1, NodeInfoFailed = 0\<rparr>,
                     Topology = [(''01'', found_attempt [])],
                     NodeInfo = [(''01'', JNull)]\<rparr>,
     panicked = False\<rparr>"
  by code_simp

lemma before_fetch_state:
  "exec demo_cfg (take 5 seed_found) (init demo_cfg) =
    \<lparr>node = \<lparr>dhtWaitGroup = 1, dhtVisited = [(''01'', found_attempt [])], dhtMutex = True,
             nodeInfoWaitGroup = 0, nodeInfoVisited = [], nodeInfoMutex = False\<rparr>,
     goroutines =
       [\<lparr>func = main, pc = Acts [WG_Wait dhtWG, WG_Wait nodeInfoWG, Lock dhtMu, Lock nodeInfoMu, Aggregate], effects = []\<rparr>,
        \<lparr>func = dhtPing [1] [], pc = Acts [WG_Add nodeInfoWG, Go (nodeInfo [1] []), Unlock dhtMu, WG_Done dhtWG],
         effects = [Sleep 0, Invoke (DHTPing [1] [])]\<rparr>],
     stdout = [], written = None, panicked = False\<rparr>"
  by code_simp

subsection \<open>The end of the run\<close>

lemma do_action_output:
  assumes "do_action cfg ev a s = Some s1" "a \<noteq> Aggregate"
  shows "written s1 = written s" "stdout s1 = stdout s"
  using assms by (cases a; auto split: if_splits)+

lemma step_written:
  assumes st: "step cfg ev s = s'"
  shows "written s' = written s \<or>
    (\<exists>as. tid ev < length (goroutines s) \<and> \<not> panicked s \<and> pc (goroutines s ! tid ev) = Acts (Aggregate # as) \<and>
       s' = set_pc (tid ev) (Acts as) (aggregate cfg ev s))"
  using st
proof (cases rule: step_cases)
  case (act a as s1)
  show ?thesis
  proof (cases "a = Aggregate")
    case True
    with act show ?thesis by auto
  next
    case False
    from do_action_output(1)[OF act(4) False] act(5) show ?thesis by simp
  qed
qed simp_all

lemma frozen:
  assumes i: "inv cfg s" and r: "returned (goroutines s ! 0)"
  shows "step cfg ev s = s"
proof (cases "tid ev < length (goroutines s)")
  case False
  then show ?thesis by (simp add: step_def)
next
  case True
  have "WG_Wait nodeInfoWG \<notin> set (acts (goroutines s ! 0))" using r by (simp add: returned_def acts_def)
  from drained_all[OF i this _ True] r have "returned (goroutines s ! tid ev)"
    by (cases "tid ev = 0") simp_all
  then show ?thesis by (simp add: returned_def step_returned)
qed

lemma frozen_exec:
  assumes i: "inv cfg s" and r: "returned (goroutines s ! 0)"
  shows "exec cfg evs s = s"
  by (induction evs) (simp_all add: frozen[OF i r])

lemma final_step:
  assumes st: "step cfg ev s = s'" and i: "inv cfg s" and f: "final s"
  shows "final s'"
proof (cases "returned (goroutines s ! 0)")
  case True
  from frozen[OF i True, of ev] st have "s' = s" by simp
  then show ?thesis using f by simp
next
  case False
  with f have wn: "written s = None" by (simp add: final_def)
  from i have c: "core cfg s" by (simp add: inv_def)
  from c have ne: "goroutines s \<noteq> []"
    and mo: "\<forall>t < length (goroutines s). func (goroutines s ! t) = main \<longleftrightarrow> t = 0"
    and sh: "\<forall>g \<in> set (goroutines s). shape cfg g"
    by (simp_all add: core_def)
  from main_acts[OF c] have m0: "pc (goroutines s ! 0) = Acts (acts (goroutines s ! 0))"
    and sf: "suffix (acts (goroutines s ! 0)) (main_body cfg)" by simp_all
  have np: "\<not> panicked s" using c by (simp add: core_def)
  show ?thesis
  proof (cases "\<exists>as. tid ev < length (goroutines s) \<and> pc (goroutines s ! tid ev) = Acts (Aggregate # as)")
    case True
    then obtain as where lt: "tid ev < length (goroutines s)" and pa: "pc (goroutines s ! tid ev) = Acts (Aggregate # as)"
      by blast
    have s': "s' = set_pc (tid ev) (Acts as) (aggregate cfg ev s)"
      using st np lt pa by (simp add: step_def)
    have shg: "shape cfg (goroutines s ! tid ev)" using sh lt by simp
    have t0: "tid ev = 0"
    proof (cases "func (goroutines s ! tid ev)")
      case main
      with mo lt show ?thesis by simp
    next
      case (dhtPing p x)
      with shg pa show ?thesis by (simp add: shape_def)
    next
      case (nodeInfo p x)
      with shg pa show ?thesis by (auto simp: shape_def)
    qed
    with pa m0 have a: "acts (goroutines s ! 0) = Aggregate # as" by simp
    from suffix_main_body[OF sf] a have as: "as = []" by (auto simp: main_body_def)
    have r: "returned (goroutines s' ! 0)" unfolding s' using t0 lt as by (simp add: returned_def)
    have n: "node s' = node s" unfolding s' by simp
    have o: "\<exists>out. stdout s' = out @ summary (make_results (node s))"
      unfolding s' by (auto simp: aggregate_def Let_def split: option.splits)
    have w: "written s' = None \<or> written s' = Some (make_results (node s))"
      unfolding s' using wn by (auto simp: aggregate_def Let_def split: option.splits)
    show ?thesis using r n o w by (simp add: final_def)
  next
    case na: False
    with step_written[OF st] have same: "written s' = written s" by blast
    have "\<not> returned (goroutines s' ! 0)"
    proof (cases "tid ev = 0")
      case nz: False
      from ne have "0 < length (goroutines s)" by simp
      from step_other[OF st this] nz False show ?thesis by simp
    next
      case True
      from st show ?thesis
      proof (cases rule: step_cases)
        case stutter
        then show ?thesis using False by simp
      next
        case (act a as s1)
        have a: "acts (goroutines s ! 0) = a # as" using act(3) True m0 by simp
        have g0: "goroutines s' ! 0 = (goroutines s ! 0)\<lparr>pc := Acts as\<rparr>"
          unfolding act(5) act_goroutines[OF act(4) act(2)] using True ne by (simp add: nth_append)
        have "a \<noteq> Aggregate" using na act(2,3) by auto
        with suffix_main_body[OF sf] a have "as \<noteq> []" by (auto simp: main_body_def)
        then show ?thesis unfolding g0 by (simp add: returned_def)
      qed (use True mo in auto)
    qed
    then show ?thesis using same wn by (simp add: final_def)
  qed
qed

lemma final_init: "final (init cfg)"
  by (simp add: final_def init_def returned_def main_body_def)

lemma final_exec: "inv cfg s \<Longrightarrow> final s \<Longrightarrow> final (exec cfg evs s)"
proof (induction evs arbitrary: s)
  case Nil
  then show ?case by simp
next
  case (Cons e evs)
  have "inv cfg (step cfg e s)" using Cons.prems(1) by (intro drained_step[OF refl])
  moreover have "final (step cfg e s)" using Cons.prems by (intro final_step[OF refl])
  ultimately show ?case using Cons.IH by simp
qed

lemma final_reachable: "final (exec cfg evs (init cfg))"
  by (rule final_exec) (rule inv_init, rule final_init)

subsection \<open>The keys of the two maps\<close>

lemma step_nodeInfoVisited:
  "nodeInfoVisited (node (step cfg ev s)) = nodeInfoVisited (node s) \<or>
   (\<exists>p c res j. tid ev < length (goroutines s) \<and> func (goroutines s ! tid ev) = nodeInfo p c \<and>
      pc (goroutines s ! tid ev) = N_Store res \<and> json_Unmarshal cfg res = Inr j \<and>
      nodeInfoVisited (node (step cfg ev s)) = AList.update (hex_EncodeToString p) j (nodeInfoVisited (node s)))"
proof -
  obtain s' where s': "step cfg ev s = s'" by simp
  from s' show ?thesis
  proof (cases rule: step_cases)
    case (act a as s1)
    then show ?thesis using do_action_maps(2)[OF act(4)] s' by simp
  next
    case (n_store p c res)
    show ?thesis
    proof (cases "json_Unmarshal cfg res")
      case (Inl e)
      then show ?thesis using n_store s' by (simp add: nodeInfo_store_def)
    next
      case (Inr j)
      then show ?thesis using n_store s' by (simp add: nodeInfo_store_def)
    qed
  qed (use s' in simp_all)
qed

lemma distinct_write: "distinct (map fst m) \<Longrightarrow> distinct (map fst (dhtPing_write key info m))"
  by (simp add: dhtPing_write_def Let_def distinct_update)

lemma distinct_step:
  assumes "distinct (map fst (dhtVisited (node s)))" "distinct (map fst (nodeInfoVisited (node s)))"
  shows "distinct (map fst (dhtVisited (node (step cfg ev s)))) \<and> distinct (map fst (nodeInfoVisited (node (step cfg ev s))))"
  using assms step_dhtVisited[of cfg ev s] step_nodeInfoVisited[of cfg ev s]
  by (auto simp: distinct_write distinct_update)

lemma distinct_exec:
  "distinct (map fst (dhtVisited (node s))) \<Longrightarrow> distinct (map fst (nodeInfoVisited (node s))) \<Longrightarrow>
   distinct (map fst (dhtVisited (node (exec cfg evs s)))) \<and> distinct (map fst (nodeInfoVisited (node (exec cfg evs s))))"
proof (induction evs arbitrary: s)
  case Nil
  then show ?case by simp
next
  case (Cons e evs)
  from distinct_step[OF Cons.prems, of cfg e] Cons.IH show ?case by simp
qed

lemma distinct_reachable:
  "distinct (map fst (dhtVisited (node (exec cfg evs (init cfg)))))"
  "distinct (map fst (nodeInfoVisited (node (exec cfg evs (init cfg)))))"
  using distinct_exec[of "init cfg" cfg evs] by (simp_all add: init_def)

lemma len_card: "distinct (map fst m) \<Longrightarrow> len m = int (card (dom (map_of m)))"
proof -
  assume d: "distinct (map fst m)"
  have "card (dom (map_of m)) = card (set (map fst m))" by (simp add: dom_map_of_conv_image_fst)
  also have "\<dots> = length (map fst m)" using d by (rule distinct_card)
  finally show ?thesis by (simp add: len_def)
qed

lemma count_found_fold:
  "fold (\<lambda>(k, a) found. if Found a then found + 1 else found) m n = n + int (length (filter (\<lambda>(k, a). Found a) m))"
  by (induction m arbitrary: n) (auto split: prod.splits)

lemma count_found_filter: "count_found m = int (length (filter (\<lambda>(k, a). Found a) m))"
  by (simp add: count_found_def count_found_fold)

lemma crawler_count_found_fold:
  "fold (\<lambda>(k, a) found. if crawler_found a then found + 1 else found) m n =
     n + int (length (filter (\<lambda>(k, a). crawler_found a) m))"
  by (induction m arbitrary: n) (auto split: prod.splits)

lemma crawler_count_found_filter: "crawler_count_found m = int (length (filter (\<lambda>(k, a). crawler_found a) m))"
  by (simp add: crawler_count_found_def crawler_count_found_fold)

lemma count_found_card:
  assumes d: "distinct (map fst m)"
  shows "count_found m = int (card {k. \<exists>a. map_of m k = Some a \<and> Found a})"
proof -
  let ?f = "filter (\<lambda>(k, a). Found a) m"
  have df: "distinct (map fst ?f)" using d by (rule distinct_map_filter)
  have "{k. \<exists>a. map_of m k = Some a \<and> Found a} = set (map fst ?f)"
    using d by (auto simp: map_of_eq_Some_iff image_iff)
  then have "card {k. \<exists>a. map_of m k = Some a \<and> Found a} = length (map fst ?f)"
    using df by (simp only: distinct_card)
  then show ?thesis by (simp add: count_found_filter)
qed

subsection \<open>The results\<close>

lemma run_without_metadata_state:
  "exec demo_cfg run_without_metadata (init demo_cfg) =
    \<lparr>node = \<lparr>dhtWaitGroup = 0, dhtVisited = [(''01'', found_attempt [])], dhtMutex = True,
             nodeInfoWaitGroup = 0, nodeInfoVisited = [], nodeInfoMutex = True\<rparr>,
     goroutines =
       [\<lparr>func = main, pc = Acts [], effects = []\<rparr>,
        \<lparr>func = dhtPing [1] [], pc = Acts [], effects = [Sleep 0, Invoke (DHTPing [1] [])]\<rparr>,
        \<lparr>func = nodeInfo [1] [], pc = Acts [],
         effects = [Sleep 999000000, Invoke (GetNodeInfo [1] []), Sleep 1998000000, Invoke (GetNodeInfo [1] []),
                    Sleep 3996000000, Invoke (GetNodeInfo [1] []), Sleep 7992000000, Invoke (GetNodeInfo [1] []),
                    Sleep 15984000000, Invoke (GetNodeInfo [1] [])]\<rparr>],
     stdout =
       [Blank, Text ''The crawl took'', Labelled ''Results written to'' ''results.json'', Blank,
        Count 1 ''nodes were processed'', Count 1 ''nodes were found'', Count 0 ''nodes were not found'', Blank,
        Count 1 ''nodes responded with nodeinfo'', Count 0 ''nodes did not respond with nodeinfo''],
     written = Some \<lparr>Meta = \<lparr>NodesAttempted = 1, NodesSuccessful = 1, NodesFailed = 0,
                              NodeInfoSuccessful = 0, NodeInfoFailed = 1\<rparr>,
                     Topology = [(''01'', found_attempt [])],
                     NodeInfo = []\<rparr>,
     panicked = False\<rparr>"
  by code_simp

lemma make_results_fields:
  "NodesAttempted (Meta (make_results n)) = len (dhtVisited n)"
  "NodesSuccessful (Meta (make_results n)) = count_found (dhtVisited n)"
  "NodesFailed (Meta (make_results n)) = len (dhtVisited n) - count_found (dhtVisited n)"
  "NodeInfoSuccessful (Meta (make_results n)) = len (nodeInfoVisited n)"
  "NodeInfoFailed (Meta (make_results n)) = count_found (dhtVisited n) - len (nodeInfoVisited n)"
  "Topology (make_results n) = dhtVisited n"
  "NodeInfo (make_results n) = nodeInfoVisited n"
  by (simp_all add: make_results_def Let_def)

lemma returned_all:
  assumes i: "inv cfg s" and r: "returned (goroutines s ! 0)" and t: "t < length (goroutines s)"
  shows "returned (goroutines s ! t)"
proof -
  have "WG_Wait nodeInfoWG \<notin> set (acts (goroutines s ! 0))" using r by (simp add: returned_def acts_def)
  from drained_all[OF i this _ t] r show ?thesis by (cases "t = 0") simp_all
qed

lemma returned_counters:
  assumes i: "inv cfg s" and r: "returned (goroutines s ! 0)"
  shows "dhtWaitGroup (node s) = 0 \<and> nodeInfoWaitGroup (node s) = 0"
  using i r by (simp add: inv_def returned_def acts_def)

subsection \<open>The retry loop\<close>

lemma retry_shape:
  "\<exists>k. int idx + int k \<le> max (int idx) n
     \<and> snd (retry bits n c rnd reply idx cur tr) = tr @ concat (map (attempt_effects bits c rnd) [idx..<idx + k])
     \<and> (\<forall>i. idx \<le> i \<and> i + 1 < idx + k \<longrightarrow> snd (reply i) \<noteq> None)
     \<and> (0 < k \<longrightarrow> fst (retry bits n c rnd reply idx cur tr) = reply (idx + k - 1))
     \<and> (k = 0 \<longrightarrow> fst (retry bits n c rnd reply idx cur tr) = cur)
     \<and> (int idx + int k < n \<longrightarrow> 0 < k \<and> snd (reply (idx + k - 1)) = None)"
proof (induction bits n c rnd reply idx cur tr rule: retry.induct)
  case (1 bits n c rnd reply idx cur tr)
  show ?case
  proof (cases "int idx < n")
    case False
    then show ?thesis
      by (intro exI[of _ 0]) (auto simp add: retry.simps)
  next
    case True
    note lt = this
    show ?thesis
    proof (cases "snd (reply idx) = None")
      case True
      with lt show ?thesis
        by (intro exI[of _ 1]) (auto simp add: retry.simps Let_def attempt_effects_def)
    next
      case False
      from "1.IH"[OF lt refl refl False]
      obtain k where k: "int (Suc idx) + int k \<le> max (int (Suc idx)) n"
        "snd (retry bits n c rnd reply (Suc idx) (reply idx) (tr @ attempt_effects bits c rnd idx))
           = (tr @ attempt_effects bits c rnd idx) @ concat (map (attempt_effects bits c rnd) [Suc idx..<Suc idx + k])"
        "\<forall>i. Suc idx \<le> i \<and> i + 1 < Suc idx + k \<longrightarrow> snd (reply i) \<noteq> None"
        "0 < k \<longrightarrow> fst (retry bits n c rnd reply (Suc idx) (reply idx) (tr @ attempt_effects bits c rnd idx)) = reply (Suc idx + k - 1)"
        "k = 0 \<longrightarrow> fst (retry bits n c rnd reply (Suc idx) (reply idx) (tr @ attempt_effects bits c rnd idx)) = reply idx"
        "int (Suc idx) + int k < n \<longrightarrow> 0 < k \<and> snd (reply (Suc idx + k - 1)) = None"
        unfolding attempt_effects_def by blast
      have unf: "retry bits n c rnd reply idx cur tr
           = retry bits n c rnd reply (Suc idx) (reply idx) (tr @ attempt_effects bits c rnd idx)"
        using lt False by (subst retry.simps) (auto simp add: Let_def attempt_effects_def)
      have up: "[idx..<idx + Suc k] = idx # [Suc idx..<Suc idx + k]"
        by (simp add: upt_rec)
      show ?thesis
      proof (intro exI[of _ "Suc k"] conjI)
        show "int idx + int (Suc k) \<le> max (int idx) n" using k(1) lt by simp
        show "snd (retry bits n c rnd reply idx cur tr) = tr @ concat (map (attempt_effects bits c rnd) [idx..<idx + Suc k])"
          unfolding unf k(2) up by simp
        show "\<forall>i. idx \<le> i \<and> i + 1 < idx + Suc k \<longrightarrow> snd (reply i) \<noteq> None"
        proof (intro allI impI)
          fix i assume a: "idx \<le> i \<and> i + 1 < idx + Suc k"
          show "snd (reply i) \<noteq> None"
          proof (cases "i = idx")
            case True then show ?thesis using False by simp
          next
            case False
            with a have "Suc idx \<le> i \<and> i + 1 < Suc idx + k" by simp
            with k(3) show ?thesis by blast
          qed
        qed
        show "0 < Suc k \<longrightarrow> fst (retry bits n c rnd reply idx cur tr) = reply (idx + Suc k - 1)"
          unfolding unf using k(4) k(5) by (cases "k = 0") simp_all
        show "Suc k = 0 \<longrightarrow> fst (retry bits n c rnd reply idx cur tr) = cur" by simp
        show "int idx + int (Suc k) < n \<longrightarrow> 0 < Suc k \<and> snd (reply (idx + Suc k - 1)) = None"
          using k(6) by auto
      qed
    qed
  qed
qed

lemma go_int_product: "go_int bits (int r * go_int bits (push_bit idx 1)) = go_int bits (int r * 2 ^ idx)"
proof -
  have "signed_take_bit (bits - 1) (int r * signed_take_bit (bits - 1) (2 ^ idx))
      = signed_take_bit (bits - 1) (signed_take_bit (bits - 1) (int r) * signed_take_bit (bits - 1) (signed_take_bit (bits - 1) (2 ^ idx)))"
    by (rule signed_take_bit_mult[symmetric])
  also have "\<dots> = signed_take_bit (bits - 1) (int r * 2 ^ idx)"
    by (simp add: signed_take_bit_mult)
  finally show ?thesis by (simp add: go_int_def push_bit_eq_mult)
qed

lemma backoff_exact:
  assumes "int r * 2 ^ i < 2 ^ (bits - 1)" "1000000 * int r * 2 ^ i < 2 ^ 63"
  shows "sint (backoff bits r i) = 1000000 * int r * 2 ^ i"
proof -
  have lb0: "- (2 ^ (bits - 1)) \<le> int r * (2::int) ^ i"
    by (rule order_trans[of _ 0]) simp_all
  have g: "go_int bits (int r * 2 ^ i) = int r * 2 ^ i"
    unfolding go_int_def by (rule signed_take_bit_int_eq_self) (use lb0 assms(1) in simp_all)
  have "backoff bits r i = Millisecond * word_of_int (int r * 2 ^ i)"
    unfolding backoff_def go_int_product g ..
  then have w: "backoff bits r i = (word_of_int (1000000 * int r * 2 ^ i) :: 64 word)"
    by (simp add: Millisecond_def mult.assoc)
  have lb: "- (2 ^ 63) \<le> 1000000 * int r * (2::int) ^ i"
    by (rule order_trans[of _ 0]) simp_all
  have "sint (word_of_int (1000000 * int r * 2 ^ i) :: 64 word)
          = signed_take_bit (LENGTH(64) - Suc 0) (1000000 * int r * 2 ^ i)"
    by (rule trans[OF signed_of_int]) simp
  also have "\<dots> = 1000000 * int r * 2 ^ i"
    by (rule signed_take_bit_int_eq_self) (use lb assms(2) in simp_all)
  finally show ?thesis
    by (simp only: w)
qed

lemma backoff_exact_early:
  assumes "r < 1000" "i \<le> 21" "bits = 32 \<or> bits = 64"
  shows "sint (backoff bits r i) = 1000000 * int r * 2 ^ i"
proof -
  have p: "(2::int) ^ i \<le> 2 ^ 21"
    using assms(2) by (intro power_increasing) simp_all
  have m: "int r * 2 ^ i \<le> 999 * 2 ^ 21"
    using assms(1) p by (intro mult_mono) simp_all
  then have b64: "1000000 * int r * 2 ^ i < 2 ^ 63" by simp
  have "int r * 2 ^ i < 2 ^ 31" using m by simp
  moreover have "(2::int) ^ 31 \<le> 2 ^ (bits - 1)" using assms(3) by auto
  ultimately have "int r * 2 ^ i < 2 ^ (bits - 1)" by simp
  then show ?thesis using b64 by (rule backoff_exact)
qed

lemma backoff_exact_64:
  assumes "r < 1000" "i \<le> 33"
  shows "sint (backoff 64 r i) = 1000000 * int r * 2 ^ i"
proof -
  have p: "(2::int) ^ i \<le> 2 ^ 33"
    using assms(2) by (intro power_increasing) simp_all
  have m: "int r * 2 ^ i \<le> 999 * 2 ^ 33"
    using assms(1) p by (intro mult_mono) simp_all
  then have b64: "1000000 * int r * 2 ^ i < 2 ^ 63" by simp
  have "int r * 2 ^ i < 2 ^ (64 - 1)" using m by simp
  then show ?thesis using b64 by (rule backoff_exact)
qed

text \<open>
  What the loop does, whatever the replies: it makes at most \<open>n\<close> attempts, each a sleep
  followed by the call; every attempt but the last one made has failed; it stops before
  \<open>n\<close> attempts only on a success; it reports the reply of the last attempt; and if every
  call fails it makes exactly \<open>n\<close> of them (none, when \<open>n\<close> is not positive).
\<close>

lemma count_attempts:
  "count_list (concat (map (attempt_effects bits c rnd) xs)) (Invoke c) = length xs"
  by (induction xs) (simp_all add: attempt_effects_def)

lemma retry_from_start:
  fixes bits n c rnd reply cur
  defines "r \<equiv> retry bits n c rnd reply 0 cur []"
  defines "k \<equiv> count_list (snd r) (Invoke c)"
  shows "int k \<le> max 0 n"
    and "snd r = concat (map (attempt_effects bits c rnd) [0..<k])"
    and "\<forall>i. Suc i < k \<longrightarrow> snd (reply i) \<noteq> None"
    and "0 < k \<longrightarrow> fst r = reply (k - 1)"
    and "k = 0 \<longrightarrow> fst r = cur"
    and "int k < n \<longrightarrow> 0 < k \<and> snd (fst r) = None"
proof -
  from retry_shape[of 0 n bits c rnd reply cur "[]"]
  obtain j where j: "int j \<le> max 0 n"
     "snd r = concat (map (attempt_effects bits c rnd) [0..<j])"
     "\<forall>i. i + 1 < j \<longrightarrow> snd (reply i) \<noteq> None"
     "0 < j \<longrightarrow> fst r = reply (j - 1)"
     "j = 0 \<longrightarrow> fst r = cur"
     "int j < n \<longrightarrow> 0 < j \<and> snd (reply (j - 1)) = None"
    unfolding r_def by auto
  have kj: "k = j" unfolding k_def j(2) by (simp add: count_attempts)
  show "int k \<le> max 0 n" using j(1) kj by simp
  show "snd r = concat (map (attempt_effects bits c rnd) [0..<k])" using j(2) kj by simp
  show "\<forall>i. Suc i < k \<longrightarrow> snd (reply i) \<noteq> None" using j(3) kj by simp
  show "0 < k \<longrightarrow> fst r = reply (k - 1)" using j(4) kj by simp
  show "k = 0 \<longrightarrow> fst r = cur" using j(5) kj by simp
  show "int k < n \<longrightarrow> 0 < k \<and> snd (fst r) = None" using j(4,6) kj by auto
qed

lemma retry_all_fail:
  assumes "\<forall>i. int i < n \<longrightarrow> snd (reply i) \<noteq> None"
  shows "int (count_list (snd (retry bits n c rnd reply 0 cur [])) (Invoke c)) = max 0 n"
proof -
  let ?r = "retry bits n c rnd reply 0 cur []"
  let ?k = "count_list (snd ?r) (Invoke c)"
  note f = retry_from_start[of bits n c rnd reply cur]
  show ?thesis
  proof (cases "int ?k < n")
    case True
    with f(6) have s: "snd (fst ?r) = None" and pos: "0 < ?k" by simp_all
    from f(4) pos have "fst ?r = reply (?k - 1)" by simp
    with s have "snd (reply (?k - 1)) = None" by simp
    moreover have "int (?k - 1) < n" using True pos by simp
    ultimately show ?thesis using assms by blast
  next
    case False
    with f(1) show ?thesis by simp
  qed
qed

subsection \<open>One goroutine running alone\<close>

lemma step_act:
  assumes "\<not> panicked s" "tid ev < length (goroutines s)" "pc (goroutines s ! tid ev) = Acts (a # as)"
    "do_action cfg ev a s = Some s1"
  shows "step cfg ev s = set_pc (tid ev) (Acts as) s1"
  using assms by (simp add: step_def)

lemma do_action_nonblocking:
  assumes "nonblocking a"
  shows "\<exists>s1. do_action cfg ev a s = Some s1"
  using assms by (cases a) (simp_all add: nonblocking_def)

lemma started_Nil [simp]: "started [] = []"
  by (simp add: started_def)

lemma started_Cons: "started (a # as) = (case a of Go c \<Rightarrow> [c] | _ \<Rightarrow> []) @ started as"
  by (simp add: started_def)

lemma run_acts:
  assumes "core cfg s" "t < length (goroutines s)" "pc (goroutines s ! t) = Acts as"
    "\<forall>a \<in> set as. nonblocking a" "length run = length as" "\<forall>e \<in> set run. tid e = t"
  shows "goroutines (exec cfg run s) =
           (goroutines s)[t := (goroutines s ! t)\<lparr>pc := Acts []\<rparr>] @ map spawn (started as) \<and>
         dhtVisited (node (exec cfg run s)) = dhtVisited (node s) \<and>
         nodeInfoVisited (node (exec cfg run s)) = nodeInfoVisited (node s) \<and>
         stdout (exec cfg run s) = stdout s \<and> written (exec cfg run s) = written s"
  using assms
proof (induction as arbitrary: s run)
  case Nil
  then have "(goroutines s)[t := (goroutines s ! t)\<lparr>pc := Acts []\<rparr>] = goroutines s"
    by (simp add: list_update_same_conv)
  with Nil show ?case by (simp add: started_def)
next
  case (Cons a as)
  from Cons.prems(5) obtain e run' where run: "run = e # run'" "length run' = length as"
    by (cases run) auto
  with Cons.prems(6) have te: "tid e = t" and tr: "\<forall>e \<in> set run'. tid e = t" by simp_all
  from Cons.prems(4) have nb: "nonblocking a" and nbs: "\<forall>a \<in> set as. nonblocking a" by simp_all
  from do_action_nonblocking[OF nb] obtain s1 where s1: "do_action cfg e a s = Some s1" by blast
  have np: "\<not> panicked s" using Cons.prems(1) by (simp add: core_def)
  let ?s' = "step cfg e s"
  have st: "?s' = set_pc t (Acts as) s1"
    using step_act[OF np _ _ s1] Cons.prems(2,3) te by simp
  have c': "core cfg ?s'" using Cons.prems(1) by (intro core_step[OF refl])
  have gs': "goroutines ?s' = (goroutines s)[t := (goroutines s ! t)\<lparr>pc := Acts as\<rparr>] @ (case a of Go c \<Rightarrow> [spawn c] | _ \<Rightarrow> [])"
    unfolding st using act_goroutines[OF s1 Cons.prems(2)] by simp
  have lt': "t < length (goroutines ?s')" using Cons.prems(2) gs' by simp
  have gt: "goroutines ?s' ! t = (goroutines s ! t)\<lparr>pc := Acts as\<rparr>"
    unfolding gs' using Cons.prems(2) by (simp add: nth_append)
  then have pc': "pc (goroutines ?s' ! t) = Acts as" by simp
  note ih = Cons.IH[OF c' lt' pc' nbs run(2) tr]
  have a: "a \<noteq> Aggregate" using nb by (auto simp: nonblocking_def)
  have n': "dhtVisited (node ?s') = dhtVisited (node s)" "nodeInfoVisited (node ?s') = nodeInfoVisited (node s)"
    "stdout ?s' = stdout s" "written ?s' = written s"
    unfolding st using do_action_maps[OF s1] do_action_output[OF s1 a] by simp_all
  have "(goroutines ?s')[t := (goroutines ?s' ! t)\<lparr>pc := Acts []\<rparr>] @ map spawn (started as)
      = (goroutines s)[t := (goroutines s ! t)\<lparr>pc := Acts []\<rparr>] @ map spawn (started (a # as))"
    unfolding gt unfolding gs' using Cons.prems(2)
    by (cases a) (simp_all add: list_update_append1 started_Cons)
  with ih n' show ?case unfolding run by simp
qed

lemma started_fan:
  "started (concat (map (\<lambda>i. [WG_Add dhtWG, Go (dhtPing (PublicKey i) (entry_Coords i))]) rs) @ rest) =
     map (\<lambda>i. dhtPing (PublicKey i) (entry_Coords i)) rs @ started rest"
  by (induction rs) (simp_all add: started_def)

lemma started_rest:
  "started (dhtPing_rest oldInfo info pubkey coords res) =
     (if \<not> Found oldInfo \<and> Found info
      then nodeInfo pubkey coords # map (\<lambda>i. dhtPing (PublicKey i) (entry_Coords i)) (Infos res)
      else [])"
proof -
  have e: "started [Unlock dhtMu, WG_Done dhtWG] = []" by (simp add: started_def)
  have "started (dhtPing_rest oldInfo info pubkey coords res) =
     (if \<not> Found oldInfo \<and> Found info
      then started ([WG_Add nodeInfoWG, Go (nodeInfo pubkey coords)] @
           (concat (map (\<lambda>i. [WG_Add dhtWG, Go (dhtPing (PublicKey i) (entry_Coords i))]) (Infos res)) @ [Unlock dhtMu, WG_Done dhtWG]))
      else started [Unlock dhtMu, WG_Done dhtWG])"
    by (simp add: dhtPing_rest_def)
  also have "\<dots> = (if \<not> Found oldInfo \<and> Found info
      then nodeInfo pubkey coords # map (\<lambda>i. dhtPing (PublicKey i) (entry_Coords i)) (Infos res)
      else [])"
    unfolding e by (simp add: started_Cons started_fan e)
  finally show ?thesis .
qed

lemma started_crawler_rest:
  "started (crawler_dhtPing_rest oldInfo info pubkey coords res) =
     (if \<not> crawler_found oldInfo \<and> crawler_found info
      then nodeInfo pubkey coords # map (\<lambda>i. dhtPing (PublicKey i) (entry_Coords i)) (Infos res)
      else [])"
proof -
  have e: "started [Unlock dhtMu, WG_Done dhtWG] = []" by (simp add: started_def)
  have "started (crawler_dhtPing_rest oldInfo info pubkey coords res) =
     (if \<not> crawler_found oldInfo \<and> crawler_found info
      then started ([WG_Add nodeInfoWG, Go (nodeInfo pubkey coords)] @
           (concat (map (\<lambda>i. [WG_Add dhtWG, Go (dhtPing (PublicKey i) (entry_Coords i))]) (Infos res)) @ [Unlock dhtMu, WG_Done dhtWG]))
      else started [Unlock dhtMu, WG_Done dhtWG])"
    by (simp add: crawler_dhtPing_rest_def)
  also have "\<dots> = (if \<not> crawler_found oldInfo \<and> crawler_found info
      then nodeInfo pubkey coords # map (\<lambda>i. dhtPing (PublicKey i) (entry_Coords i)) (Infos res)
      else [])"
    unfolding e by (simp add: started_Cons started_fan e)
  finally show ?thesis .
qed

lemma nonblocking_rest: "\<forall>a \<in> set (dhtPing_rest oldInfo info pubkey coords res). nonblocking a"
  by (auto simp: dhtPing_rest_def nonblocking_def)

lemma step_d_update:
  assumes "\<not> panicked s" "tid ev < length (goroutines s)" "func (goroutines s ! tid ev) = dhtPing p c"
    "pc (goroutines s ! tid ev) = D_Update res err" "\<not> dhtMutex (node s)"
  shows "step cfg ev s = set_pc (tid ev)
              (Acts (dhtPing_rest (map_index zero_attempt (dhtVisited (node s)) (hex_EncodeToString p))
                       (dhtPing_info cfg p c err) p c res))
              (s\<lparr>node := (node s)\<lparr>dhtMutex := True,
                     dhtVisited := dhtPing_write (hex_EncodeToString p) (dhtPing_info cfg p c err) (dhtVisited (node s))\<rparr>\<rparr>)"
  using assms by (simp add: step_def step_dhtPing_def Let_def)

lemma update_then_rest:
  assumes c: "core cfg s" and t: "t < length (goroutines s)" and f: "func (goroutines s ! t) = dhtPing p x"
    and pc: "pc (goroutines s ! t) = D_Update res err" and mu: "\<not> dhtMutex (node s)"
    and run: "\<forall>e \<in> set run. tid e = t"
      "length run = Suc (length (dhtPing_rest (map_index zero_attempt (dhtVisited (node s)) (hex_EncodeToString p))
                         (dhtPing_info cfg p x err) p x res))"
  shows "goroutines (exec cfg run s) =
           (goroutines s)[t := (goroutines s ! t)\<lparr>pc := Acts []\<rparr>] @
           map spawn (started (dhtPing_rest (map_index zero_attempt (dhtVisited (node s)) (hex_EncodeToString p))
                         (dhtPing_info cfg p x err) p x res)) \<and>
         dhtVisited (node (exec cfg run s)) =
           dhtPing_write (hex_EncodeToString p) (dhtPing_info cfg p x err) (dhtVisited (node s)) \<and>
         nodeInfoVisited (node (exec cfg run s)) = nodeInfoVisited (node s)"
proof -
  let ?rest = "dhtPing_rest (map_index zero_attempt (dhtVisited (node s)) (hex_EncodeToString p))
                         (dhtPing_info cfg p x err) p x res"
  from run(2) obtain e run' where r: "run = e # run'" "length run' = length ?rest" by (cases run) auto
  with run(1) have te: "tid e = t" and tr: "\<forall>e \<in> set run'. tid e = t" by simp_all
  have np: "\<not> panicked s" using c by (simp add: core_def)
  let ?s' = "step cfg e s"
  have st: "?s' = set_pc t (Acts ?rest)
              (s\<lparr>node := (node s)\<lparr>dhtMutex := True,
                     dhtVisited := dhtPing_write (hex_EncodeToString p) (dhtPing_info cfg p x err) (dhtVisited (node s))\<rparr>\<rparr>)"
    using step_d_update[of s e p x res err cfg] np t f pc mu te by simp
  have c': "core cfg ?s'" using c by (intro core_step[OF refl])
  have gs': "goroutines ?s' = (goroutines s)[t := (goroutines s ! t)\<lparr>pc := Acts ?rest\<rparr>]"
    unfolding st by simp
  have lt': "t < length (goroutines ?s')" using t gs' by simp
  have gt: "goroutines ?s' ! t = (goroutines s ! t)\<lparr>pc := Acts ?rest\<rparr>" unfolding gs' using t by simp
  then have pc': "pc (goroutines ?s' ! t) = Acts ?rest" by simp
  note ra = run_acts[OF c' lt' pc' nonblocking_rest r(2) tr]
  have n': "dhtVisited (node ?s') = dhtPing_write (hex_EncodeToString p) (dhtPing_info cfg p x err) (dhtVisited (node s))"
    "nodeInfoVisited (node ?s') = nodeInfoVisited (node s)"
    unfolding st by simp_all
  have "(goroutines ?s')[t := (goroutines ?s' ! t)\<lparr>pc := Acts []\<rparr>] = (goroutines s)[t := (goroutines s ! t)\<lparr>pc := Acts []\<rparr>]"
    unfolding gt unfolding gs' by simp
  with ra n' show ?thesis unfolding r by simp
qed

subsection \<open>States of the sample runs before the record update\<close>

lemma seed_probed_state:
  "exec demo_cfg seed_probed (init demo_cfg) =
    \<lparr>node = \<lparr>dhtWaitGroup = 1, dhtVisited = [], dhtMutex = False,
             nodeInfoWaitGroup = 0, nodeInfoVisited = [], nodeInfoMutex = False\<rparr>,
     goroutines =
       [\<lparr>func = main, pc = Acts [WG_Wait dhtWG, WG_Wait nodeInfoWG, Lock dhtMu, Lock nodeInfoMu, Aggregate], effects = []\<rparr>,
        \<lparr>func = dhtPing [1] [], pc = D_Update \<lparr>res_Coords = [7], Infos = [rumour]\<rparr> None,
         effects = [Sleep 0, Invoke (DHTPing [1] [])]\<rparr>],
     stdout = [], written = None, panicked = False\<rparr>"
  by code_simp

lemma seed_failed_state:
  "exec demo_cfg seed_failed (init demo_cfg) =
    \<lparr>node = \<lparr>dhtWaitGroup = 1, dhtVisited = [], dhtMutex = False,
             nodeInfoWaitGroup = 0, nodeInfoVisited = [], nodeInfoMutex = False\<rparr>,
     goroutines =
       [\<lparr>func = main, pc = Acts [WG_Wait dhtWG, WG_Wait nodeInfoWG, Lock dhtMu, Lock nodeInfoMu, Aggregate], effects = []\<rparr>,
        \<lparr>func = dhtPing [1] [], pc = D_Update zero_DHTRes (Some ''timeout''),
         effects = [Sleep 999000000, Invoke (DHTPing [1] []), Sleep 1998000000, Invoke (DHTPing [1] []),
                    Sleep 3996000000, Invoke (DHTPing [1] []), Sleep 7992000000, Invoke (DHTPing [1] []),
                    Sleep 15984000000, Invoke (DHTPing [1] [])]\<rparr>],
     stdout = [], written = None, panicked = False\<rparr>"
  by code_simp

subsection \<open>A goroutine for a confirmed node\<close>

lemma fresh_update:
  assumes "list_all fresh gs" "fresh g'"
  shows "list_all fresh (gs[t := g'])"
proof -
  have "set (gs[t := g']) \<subseteq> insert g' (set gs)" by (rule set_update_subset_insert)
  with assms show ?thesis unfolding list_all_iff by blast
qed

lemma fresh_set_pc:
  assumes "list_all fresh gs" "p \<noteq> D_Dedup" "p \<noteq> N_Dedup"
  shows "list_all fresh (gs[t := (g :: goroutine)\<lparr>pc := p\<rparr>])"
  by (rule fresh_update[OF assms(1)]) (simp add: fresh_def assms(2,3))

lemma fresh_spawn: "fresh (spawn c)"
  by (simp add: fresh_def spawn_def)

lemma fresh_step:
  assumes a: "list_all fresh (goroutines s)"
  shows "list_all fresh (goroutines (step cfg ev s))"
proof -
  obtain s' where s': "step cfg ev s = s'" by simp
  have e: "list_all fresh ((goroutines s)[t := g])" if "list_all fresh (goroutines s)" "fresh g" for t g
    using that by (rule fresh_update)
  from s' have "list_all fresh (goroutines s')"
  proof (cases rule: step_cases)
    case stutter
    then show ?thesis using a by simp
  next
    case (d_hit p c)
    show ?thesis unfolding d_hit(7) set_pc_fields by (rule fresh_set_pc[OF a]) simp_all
  next
    case (d_miss p c)
    show ?thesis unfolding d_miss(7) set_pc_fields by (rule fresh_set_pc[OF a]) simp_all
  next
    case (d_retry p c)
    show ?thesis unfolding d_retry(5) set_pc_fields add_effects_fields list_update_overwrite
      by (rule fresh_update[OF a]) (simp add: fresh_def)
  next
    case (d_update p c res err)
    have "list_all fresh ((goroutines s)[tid ev := (goroutines s ! tid ev)\<lparr>pc := Acts (dhtPing_rest (map_index zero_attempt (dhtVisited (node s)) (hex_EncodeToString p))
                       (dhtPing_info cfg p c err) p c res)\<rparr>])"
      by (rule fresh_set_pc[OF a]) simp_all
    then show ?thesis unfolding d_update(6) by simp
  next
    case (n_hit p c)
    show ?thesis unfolding n_hit(7) set_pc_fields by (rule fresh_set_pc[OF a]) simp_all
  next
    case (n_miss p c)
    show ?thesis unfolding n_miss(7) set_pc_fields by (rule fresh_set_pc[OF a]) simp_all
  next
    case (n_fail p c)
    show ?thesis unfolding n_fail(6) set_pc_fields add_effects_fields list_update_overwrite
      by (rule fresh_update[OF a]) (simp add: fresh_def)
  next
    case (n_ok p c)
    show ?thesis unfolding n_ok(6) set_pc_fields add_effects_fields list_update_overwrite
      by (rule fresh_update[OF a]) (simp add: fresh_def)
  next
    case (n_store p c res)
    have "list_all fresh ((goroutines s)[tid ev := (goroutines s ! tid ev)\<lparr>pc := Acts [Unlock nodeInfoMu, WG_Done nodeInfoWG]\<rparr>])"
      by (rule fresh_set_pc[OF a]) simp_all
    then show ?thesis unfolding n_store(6) by simp
  next
    case (act a' as s1)
    have g: "goroutines s1 = goroutines s @ (case a' of Go c \<Rightarrow> [spawn c] | _ \<Rightarrow> [])"
      using act(4) by (rule do_action_goroutines)
    have "list_all fresh (case a' of Go c \<Rightarrow> [spawn c] | _ \<Rightarrow> [])"
      by (cases a') (simp_all add: fresh_spawn)
    with a have "list_all fresh (goroutines s1)" unfolding g by simp
    then show ?thesis unfolding act(5) set_pc_fields by (rule fresh_set_pc) simp_all
  qed
  with s' show ?thesis by simp
qed

lemma fresh_exec:
  "list_all fresh (goroutines s) \<Longrightarrow> list_all fresh (goroutines (exec cfg evs s))"
  by (induction evs arbitrary: s) (simp_all add: fresh_step)

lemma fresh_reachable: "list_all fresh (goroutines (exec cfg evs (init cfg)))"
  by (rule fresh_exec) (simp add: init_def fresh_def)


lemma dedup_own_step:
  assumes c: "core cfg s" and t: "t < length (goroutines s)" and f: "func (goroutines s ! t) = dhtPing p x"
    and fd: "dhtPing_dedup (node s) p" and e: "tid ev = t"
  shows "pc (goroutines s ! t) = D_Dedup \<Longrightarrow> dhtMutex (node s) \<Longrightarrow> step cfg ev s = s"
    and "pc (goroutines s ! t) = D_Dedup \<Longrightarrow> \<not> dhtMutex (node s) \<Longrightarrow>
           step cfg ev s = set_pc t (Acts [WG_Done dhtWG]) s"
    and "pc (goroutines s ! t) = Acts [WG_Done dhtWG] \<Longrightarrow>
           step cfg ev s = set_pc t (Acts []) (s\<lparr>node := (node s)\<lparr>dhtWaitGroup := dhtWaitGroup (node s) - 1\<rparr>\<rparr>)"
    and "pc (goroutines s ! t) = Acts [] \<Longrightarrow> step cfg ev s = s"
proof -
  from c have np: "\<not> panicked s" by (simp add: core_def)
  show "step cfg ev s = s" if "pc (goroutines s ! t) = D_Dedup" "dhtMutex (node s)"
    using that np t f e by (simp add: step_def step_dhtPing_def)
  show "step cfg ev s = set_pc t (Acts [WG_Done dhtWG]) s" if "pc (goroutines s ! t) = D_Dedup" "\<not> dhtMutex (node s)"
    using that np t f e fd by (simp add: step_def step_dhtPing_def)
  show "step cfg ev s = set_pc t (Acts []) (s\<lparr>node := (node s)\<lparr>dhtWaitGroup := dhtWaitGroup (node s) - 1\<rparr>\<rparr>)"
    if pc: "pc (goroutines s ! t) = Acts [WG_Done dhtWG]"
  proof -
    have "running dhtWG (goroutines s ! t)" using pc f by (simp add: running_def wg_of_def)
    with c t have "1 \<le> counter dhtWG (node s)" by (rule running_counter)
    then have "1 \<le> dhtWaitGroup (node s)" by (simp add: counter_def)
    then show ?thesis using pc np t e by (simp add: step_def counter_def set_counter_def)
  qed
  show "step cfg ev s = s" if "pc (goroutines s ! t) = Acts []"
    using that e by (simp add: step_returned)
qed

lemma dedup_hit_step:
  assumes c: "core cfg s" and t: "t < length (goroutines s)" and f: "func (goroutines s ! t) = dhtPing p x"
    and pc: "at_dedup_return (pc (goroutines s ! t))" and fd: "dhtPing_dedup (node s) p"
  shows "t < length (goroutines (step cfg ev s)) \<and>
         func (goroutines (step cfg ev s) ! t) = dhtPing p x \<and>
         at_dedup_return (pc (goroutines (step cfg ev s) ! t)) \<and>
         effects (goroutines (step cfg ev s) ! t) = effects (goroutines s ! t) \<and>
         dhtPing_dedup (node (step cfg ev s)) p"
proof -
  have fd': "dhtPing_dedup (node (step cfg ev s)) p"
    using fd unfolding dhtPing_dedup_def by (rule step_found)
  show ?thesis
  proof (cases "tid ev = t")
    case False
    obtain s' where s': "step cfg ev s = s'" by simp
    from step_goroutines[OF s'] obtain g' new where
      g: "goroutines s' = (goroutines s)[tid ev := g'] @ new" by blast
    have l: "t < length (goroutines s')" using t unfolding g by simp
    have "goroutines s' ! t = goroutines s ! t" using s' t by (rule step_other) (use False in simp)
    then show ?thesis using l f pc fd' unfolding s' by simp
  next
    case True
    note o = dedup_own_step[OF c t f fd True]
    from pc consider "pc (goroutines s ! t) = D_Dedup" "dhtMutex (node s)"
      | "pc (goroutines s ! t) = D_Dedup" "\<not> dhtMutex (node s)"
      | "pc (goroutines s ! t) = Acts [WG_Done dhtWG]" | "pc (goroutines s ! t) = Acts []"
      unfolding at_dedup_return_def by blast
    then show ?thesis
    proof cases
      case 1
      then show ?thesis using o(1) t f pc fd by simp
    next
      case 2
      then show ?thesis using o(2) t f fd' by (simp add: at_dedup_return_def)
    next
      case 3
      then show ?thesis using o(3) t f fd' by (simp add: at_dedup_return_def)
    next
      case 4
      then show ?thesis using o(4) t f pc fd by simp
    qed
  qed
qed

lemma dedup_hit_exec:
  assumes "core cfg s" "t < length (goroutines s)" "func (goroutines s ! t) = dhtPing p x"
    "at_dedup_return (pc (goroutines s ! t))" "dhtPing_dedup (node s) p"
  shows "t < length (goroutines (exec cfg evs s)) \<and>
         func (goroutines (exec cfg evs s) ! t) = dhtPing p x \<and>
         at_dedup_return (pc (goroutines (exec cfg evs s) ! t)) \<and>
         effects (goroutines (exec cfg evs s) ! t) = effects (goroutines s ! t) \<and>
         dhtPing_dedup (node (exec cfg evs s)) p"
  using assms
proof (induction evs arbitrary: s)
  case Nil
  then show ?case by simp
next
  case (Cons ev evs)
  note h = dedup_hit_step[OF Cons.prems, of ev]
  have c': "core cfg (step cfg ev s)" by (rule core_step[OF refl Cons.prems(1)])
  from Cons.IH[OF c', of ] h show ?case by simp
qed

lemma seed_echoed_state:
  "exec demo_cfg seed_echoed (init demo_cfg) =
    \<lparr>node = \<lparr>dhtWaitGroup = 1, dhtVisited = [(''01'', found_attempt [])], dhtMutex = False,
             nodeInfoWaitGroup = 1, nodeInfoVisited = [], nodeInfoMutex = False\<rparr>,
     goroutines =
       [\<lparr>func = main, pc = Acts [WG_Wait dhtWG, WG_Wait nodeInfoWG, Lock dhtMu, Lock nodeInfoMu, Aggregate], effects = []\<rparr>,
        \<lparr>func = dhtPing [1] [], pc = Acts [], effects = [Sleep 0, Invoke (DHTPing [1] [])]\<rparr>,
        \<lparr>func = nodeInfo [1] [], pc = N_Dedup, effects = []\<rparr>,
        \<lparr>func = dhtPing [1] [9], pc = D_Dedup, effects = []\<rparr>],
     stdout = [], written = None, panicked = False\<rparr>"
  by code_simp

lemma dedup_lookup:
  "dhtPing_dedup n pubkey \<longleftrightarrow> (\<exists>a. map_of (dhtVisited n) (hex_EncodeToString pubkey) = Some a \<and> Found a)"
  by (cases "map_of (dhtVisited n) (hex_EncodeToString pubkey)")
     (simp_all add: dhtPing_dedup_def map_index_def zero_attempt_def)

lemma crawler_dedup_lookup:
  "crawler_dhtPing_dedup visited pubkey \<longleftrightarrow> (\<exists>a. map_of visited pubkey = Some a \<and> crawler_found a)"
  by (cases "map_of visited pubkey")
     (simp_all add: crawler_dhtPing_dedup_def map_index_def crawler_zero_attempt_def)

subsection \<open>From the retry loop to the record\<close>

lemma others_keep:
  assumes "t < length (goroutines s)" "\<forall>e \<in> set mid. tid e \<noteq> t"
  shows "t < length (goroutines (exec cfg mid s)) \<and> goroutines (exec cfg mid s) ! t = goroutines s ! t"
  using assms
proof (induction mid arbitrary: s)
  case Nil
  then show ?case by simp
next
  case (Cons e mid)
  obtain s' where s': "step cfg e s = s'" by simp
  from step_goroutines[OF s'] obtain g' new where
    g: "goroutines s' = (goroutines s)[tid e := g'] @ new" by blast
  have l: "t < length (goroutines s')" using Cons.prems(1) unfolding g by simp
  have ne: "t \<noteq> tid e" using Cons.prems(2) by auto
  have k: "goroutines s' ! t = goroutines s ! t" using s' Cons.prems(1) ne by (rule step_other)
  have r: "\<forall>e \<in> set mid. tid e \<noteq> t" using Cons.prems(2) by simp
  from Cons.IH[OF l r] k show ?case using s' by simp
qed

lemma step_d_retry:
  assumes "\<not> panicked s" "tid ev < length (goroutines s)" "func (goroutines s ! tid ev) = dhtPing p c"
    "pc (goroutines s ! tid ev) = D_Retry"
  shows "step cfg ev s = set_pc (tid ev) (D_Update (fst (fst (dhtPing_retry cfg ev p c))) (snd (fst (dhtPing_retry cfg ev p c))))
              (add_effects (tid ev) (snd (dhtPing_retry cfg ev p c)) s)"
  using assms by (simp add: step_def step_dhtPing_def case_prod_beta)

lemma retry_invokes:
  assumes "Invoke c' \<in> set (snd (retry bits n c rnd reply 0 cur []))"
  shows "c' = c"
proof -
  obtain k where "snd (retry bits n c rnd reply 0 cur []) = concat (map (attempt_effects bits c rnd) [0..<k])"
    using retry_from_start(2)[of bits n c rnd reply cur] by blast
  with assms have "Invoke c' \<in> set (concat (map (attempt_effects bits c rnd) [0..<k]))" by simp
  then show ?thesis by (auto simp: attempt_effects_def)
qed

lemma crawler_retry_last:
  "0 < count_list (snd (crawler_dhtPing_retry bits ev pubkey coords)) (Invoke (DHTPing pubkey coords)) \<and>
   fst (crawler_dhtPing_retry bits ev pubkey coords) =
     DHTPing_reply ev (count_list (snd (crawler_dhtPing_retry bits ev pubkey coords)) (Invoke (DHTPing pubkey coords)) - 1)"
proof -
  let ?r = "retry bits 5 (DHTPing pubkey coords) (entropy ev) (DHTPing_reply ev) 0 (zero_DHTRes, None) []"
  let ?k = "count_list (snd ?r) (Invoke (DHTPing pubkey coords))"
  note f = retry_from_start[of bits 5 "DHTPing pubkey coords" "entropy ev" "DHTPing_reply ev" "(zero_DHTRes, None)"]
  have "0 < ?k"
  proof (cases "int ?k < 5")
    case True
    with f(6) show ?thesis by blast
  next
    case False
    then show ?thesis by simp
  qed
  with f(4) show ?thesis by (simp add: crawler_dhtPing_retry_def crawler_retryCount_def)
qed


lemma seed_at_retry_state:
  "exec demo_cfg (map (\<lambda>t. ok_ev t []) [0, 0, 1]) (init demo_cfg) =
    \<lparr>node = \<lparr>dhtWaitGroup = 1, dhtVisited = [], dhtMutex = False,
             nodeInfoWaitGroup = 0, nodeInfoVisited = [], nodeInfoMutex = False\<rparr>,
     goroutines =
       [\<lparr>func = main, pc = Acts [WG_Wait dhtWG, WG_Wait nodeInfoWG, Lock dhtMu, Lock nodeInfoMu, Aggregate], effects = []\<rparr>,
        \<lparr>func = dhtPing [1] [], pc = D_Retry, effects = []\<rparr>],
     stdout = [], written = None, panicked = False\<rparr>"
  by code_simp

lemma seed_after_retry_state:
  "exec demo_cfg [ok_ev 1 [rumour], ok_ev 0 []] (exec demo_cfg (map (\<lambda>t. ok_ev t []) [0, 0, 1]) (init demo_cfg)) =
    \<lparr>node = \<lparr>dhtWaitGroup = 1, dhtVisited = [], dhtMutex = False,
             nodeInfoWaitGroup = 0, nodeInfoVisited = [], nodeInfoMutex = False\<rparr>,
     goroutines =
       [\<lparr>func = main, pc = Acts [WG_Wait dhtWG, WG_Wait nodeInfoWG, Lock dhtMu, Lock nodeInfoMu, Aggregate], effects = []\<rparr>,
        \<lparr>func = dhtPing [1] [], pc = D_Update \<lparr>res_Coords = [7], Infos = [rumour]\<rparr> None,
         effects = [Sleep 0, Invoke (DHTPing [1] [])]\<rparr>],
     stdout = [], written = None, panicked = False\<rparr>"
  by code_simp

subsection \<open>Every stored metadata was stored by its one fetch\<close>

lemma map_has_update: "map_has (AList.update k v m) k' \<longleftrightarrow> k' = k \<or> map_has m k'"
  by (simp add: map_has_def update_conv')

lemma filter_unique:
  assumes "length (filter P xs) \<le> 1" "i < length xs" "j < length xs" "P (xs ! i)" "P (xs ! j)"
  shows "i = j"
  using assms
proof (induction xs arbitrary: i j)
  case Nil
  then show ?case by simp
next
  case (Cons x xs)
  have none: "\<not> P (xs ! k)" if "P x" "k < length xs" for k
  proof
    assume "P (xs ! k)"
    with that(2) have "xs ! k \<in> set (filter P xs)" by simp
    then have "0 < length (filter P xs)" by (rule length_pos_if_in_set)
    with Cons.prems(1) that(1) show False by simp
  qed
  show ?case
  proof (cases i)
    case 0
    show ?thesis
    proof (cases j)
      case j0: 0
      with 0 show ?thesis by simp
    next
      case (Suc j')
      with 0 Cons.prems none[of j'] show ?thesis by simp
    qed
  next
    case (Suc i')
    show ?thesis
    proof (cases j)
      case 0
      with Suc Cons.prems none[of i'] show ?thesis by simp
    next
      case jS: (Suc j')
      have "length (filter P xs) \<le> 1" using Cons.prems(1) by (simp split: if_splits)
      from Cons.IH[OF this, of i' j'] Suc jS Cons.prems show ?thesis by simp
    qed
  qed
qed

lemma fetch_unique:
  assumes "s = exec cfg evs (init cfg)" "i < length (goroutines s)" "j < length (goroutines s)"
    "is_fetch key (goroutines s ! i)" "is_fetch key (goroutines s ! j)"
  shows "i = j"
proof -
  have "length (filter (is_fetch key) (goroutines s)) \<le> total (fetches key) (goroutines s)"
    by (rule filter_le_total)
  also have "\<dots> = of_bool (found_in s key)" unfolding assms(1) by (rule fetch_reachable)
  also have "\<dots> \<le> 1" by simp
  finally show ?thesis using assms(2-5) by (rule filter_unique)
qed

lemma fetch_found:
  assumes "s = exec cfg evs (init cfg)" "i < length (goroutines s)" "is_fetch key (goroutines s ! i)"
  shows "found_in s key"
proof -
  have "goroutines s ! i \<in> set (filter (is_fetch key) (goroutines s))" using assms(2,3) by simp
  then have "0 < length (filter (is_fetch key) (goroutines s))" by (rule length_pos_if_in_set)
  also have "length (filter (is_fetch key) (goroutines s)) \<le> total (fetches key) (goroutines s)"
    by (rule filter_le_total)
  also have "\<dots> = of_bool (found_in s key)" unfolding assms(1) by (rule fetch_reachable)
  finally show ?thesis by (cases "found_in s key") simp_all
qed

lemma acts_step:
  assumes t: "t < length (goroutines s)" and pc: "pc (goroutines s ! t) = Acts as"
  shows "t < length (goroutines (step cfg ev s)) \<and>
         func (goroutines (step cfg ev s) ! t) = func (goroutines s ! t) \<and>
         (\<exists>as'. pc (goroutines (step cfg ev s) ! t) = Acts as')"
proof -
  obtain s' where s': "step cfg ev s = s'" by simp
  from step_goroutines[OF s'] obtain g' new where
    g: "goroutines s' = (goroutines s)[tid ev := g'] @ new" by blast
  have l: "t < length (goroutines s')" using t unfolding g by simp
  show ?thesis
  proof (cases "tid ev = t")
    case False
    have "goroutines s' ! t = goroutines s ! t" using s' t by (rule step_other) (use False in simp)
    then show ?thesis using l pc unfolding s' by simp
  next
    case True
    from s' have "func (goroutines s' ! t) = func (goroutines s ! t) \<and> (\<exists>as'. pc (goroutines s' ! t) = Acts as')"
    proof (cases rule: step_cases)
      case stutter
      then show ?thesis using pc by simp
    next
      case (act a as' s1)
      have "goroutines s1 = goroutines s @ (case a of Go c \<Rightarrow> [spawn c] | _ \<Rightarrow> [])"
        using act(4) by (rule do_action_goroutines)
      then show ?thesis unfolding act(5) using t True by (simp add: nth_append)
    qed (use pc True in simp_all)
    then show ?thesis using l unfolding s' by simp
  qed
qed

lemma acts_exec:
  assumes "t < length (goroutines s)" "pc (goroutines s ! t) = Acts as"
  shows "t < length (goroutines (exec cfg evs s)) \<and>
         func (goroutines (exec cfg evs s) ! t) = func (goroutines s ! t) \<and>
         (\<exists>as'. pc (goroutines (exec cfg evs s) ! t) = Acts as')"
  using assms
proof (induction evs arbitrary: s as)
  case Nil
  then show ?case by simp
next
  case (Cons ev evs)
  from acts_step[OF Cons.prems, of cfg ev] obtain as' where
    a: "t < length (goroutines (step cfg ev s))" "func (goroutines (step cfg ev s) ! t) = func (goroutines s ! t)"
      "pc (goroutines (step cfg ev s) ! t) = Acts as'" by blast
  from Cons.IH[OF a(1,3)] a(2) show ?case by simp
qed

lemma stored_by_fetch_step:
  assumes k: "stored_by_fetch s"
  shows "stored_by_fetch (step cfg ev s)"
  unfolding stored_by_fetch_def
proof (intro allI impI)
  fix key
  let ?s' = "step cfg ev s"
  assume h: "map_has (nodeInfoVisited (node ?s')) key"
  have old: "\<exists>i < length (goroutines ?s'). is_fetch key (goroutines ?s' ! i) \<and> (\<exists>as. pc (goroutines ?s' ! i) = Acts as)"
    if m: "map_has (nodeInfoVisited (node s)) key"
  proof -
    from k m obtain i as where i: "i < length (goroutines s)" "is_fetch key (goroutines s ! i)"
      "pc (goroutines s ! i) = Acts as" unfolding stored_by_fetch_def by blast
    from acts_step[OF i(1,3), of cfg ev] i(2) show ?thesis by (auto simp: is_fetch_def)
  qed
  obtain s' where s': "step cfg ev s = s'" by simp
  from s' have "\<exists>i < length (goroutines s'). is_fetch key (goroutines s' ! i) \<and> (\<exists>as. pc (goroutines s' ! i) = Acts as)"
  proof (cases rule: step_cases)
    case (n_store p c res)
    show ?thesis
    proof (cases "json_Unmarshal cfg res")
      case (Inl e)
      then have "nodeInfoVisited (node s') = nodeInfoVisited (node s)"
        unfolding n_store(6) by (simp add: nodeInfo_store_def)
      with h s' have "map_has (nodeInfoVisited (node s)) key" by simp
      from old[OF this] s' show ?thesis by simp
    next
      case (Inr j)
      then have v: "nodeInfoVisited (node s') = AList.update (hex_EncodeToString p) j (nodeInfoVisited (node s))"
        unfolding n_store(6) by (simp add: nodeInfo_store_def)
      show ?thesis
      proof (cases "key = hex_EncodeToString p")
        case True
        have g: "goroutines s' = (goroutines s)[tid ev := (goroutines s ! tid ev)\<lparr>pc := Acts [Unlock nodeInfoMu, WG_Done nodeInfoWG]\<rparr>]"
          unfolding n_store(6) by (simp add: nodeInfo_store_def Inr)
        have "tid ev < length (goroutines s')" unfolding g using n_store(2) by simp
        moreover have "is_fetch key (goroutines s' ! tid ev)"
          unfolding g using n_store(2,3) True by (simp add: is_fetch_def)
        moreover have "pc (goroutines s' ! tid ev) = Acts [Unlock nodeInfoMu, WG_Done nodeInfoWG]"
          unfolding g using n_store(2) by simp
        ultimately show ?thesis by blast
      next
        case False
        with h s' v have "map_has (nodeInfoVisited (node s)) key" by (simp add: map_has_update)
        from old[OF this] s' show ?thesis by simp
      qed
    qed
  next
    case (act a as s1)
    have "nodeInfoVisited (node s') = nodeInfoVisited (node s)"
      unfolding act(5) using do_action_maps(2)[OF act(4)] by simp
    with h s' have "map_has (nodeInfoVisited (node s)) key" by simp
    from old[OF this] s' show ?thesis by simp
  next
    case stutter
    with h s' have "map_has (nodeInfoVisited (node s)) key" by simp
    from old[OF this] s' show ?thesis by simp
  next
    case (d_hit p c)
    with h s' have "map_has (nodeInfoVisited (node s)) key" by simp
    from old[OF this] s' show ?thesis by simp
  next
    case (d_miss p c)
    with h s' have "map_has (nodeInfoVisited (node s)) key" by simp
    from old[OF this] s' show ?thesis by simp
  next
    case (d_retry p c)
    with h s' have "map_has (nodeInfoVisited (node s)) key" by simp
    from old[OF this] s' show ?thesis by simp
  next
    case (d_update p c res err)
    with h s' have "map_has (nodeInfoVisited (node s)) key" by simp
    from old[OF this] s' show ?thesis by simp
  next
    case (n_hit p c)
    with h s' have "map_has (nodeInfoVisited (node s)) key" by simp
    from old[OF this] s' show ?thesis by simp
  next
    case (n_miss p c)
    with h s' have "map_has (nodeInfoVisited (node s)) key" by simp
    from old[OF this] s' show ?thesis by simp
  next
    case (n_fail p c)
    with h s' have "map_has (nodeInfoVisited (node s)) key" by simp
    from old[OF this] s' show ?thesis by simp
  next
    case (n_ok p c)
    with h s' have "map_has (nodeInfoVisited (node s)) key" by simp
    from old[OF this] s' show ?thesis by simp
  qed
  then show "\<exists>i < length (goroutines ?s'). is_fetch key (goroutines ?s' ! i) \<and> (\<exists>as. pc (goroutines ?s' ! i) = Acts as)"
    unfolding s' .
qed

lemma stored_by_fetch_exec:
  "stored_by_fetch s \<Longrightarrow> stored_by_fetch (exec cfg evs s)"
  by (induction evs arbitrary: s) (simp_all add: stored_by_fetch_step)

lemma stored_by_fetch_reachable: "stored_by_fetch (exec cfg evs (init cfg))"
  by (rule stored_by_fetch_exec) (simp add: stored_by_fetch_def init_def map_has_def)

subsection \<open>A metadata fetch that fails\<close>

lemma step_n_fail:
  assumes "\<not> panicked s" "tid ev < length (goroutines s)" "func (goroutines s ! tid ev) = nodeInfo p c"
    "pc (goroutines s ! tid ev) = N_Retry" "snd (fst (nodeInfo_retry cfg ev p c)) \<noteq> None"
  shows "step cfg ev s = set_pc (tid ev) (Acts [WG_Done nodeInfoWG])
                           (add_effects (tid ev) (snd (nodeInfo_retry cfg ev p c)) s)"
  using assms by (simp add: step_def step_nodeInfo_def case_prod_beta)

lemma step_n_parse:
  assumes "\<not> panicked s" "tid ev < length (goroutines s)" "func (goroutines s ! tid ev) = nodeInfo p c"
    "pc (goroutines s ! tid ev) = N_Store res" "\<not> nodeInfoMutex (node s)" "json_Unmarshal cfg res = Inl e"
  shows "step cfg ev s = set_pc (tid ev) (Acts [Unlock nodeInfoMu, WG_Done nodeInfoWG])
                           (s\<lparr>node := (node s)\<lparr>nodeInfoMutex := True\<rparr>, stdout := stdout s @ [Text e]\<rparr>)"
  using assms by (simp add: step_def step_nodeInfo_def nodeInfo_store_def)

lemma retry_error_exhausted:
  assumes "snd (fst (retry bits n c rnd reply 0 (z, None) [])) \<noteq> None"
  shows "int (count_list (snd (retry bits n c rnd reply 0 (z, None) [])) (Invoke c)) = n"
proof -
  let ?r = "retry bits n c rnd reply 0 (z, None) []"
  let ?k = "count_list (snd ?r) (Invoke c)"
  note f = retry_from_start[of bits n c rnd reply "(z, None)"]
  from f(6) assms have ge: "n \<le> int ?k" by force
  have "?k \<noteq> 0" using f(5) assms by auto
  then have "0 < int ?k" by simp
  with f(1) have "int ?k \<le> n" by (simp add: max_def split: if_splits)
  with ge show ?thesis by simp
qed

lemma absent_at_fetch:
  assumes r: "s = exec cfg evs (init cfg)" and t: "t < length (goroutines s)"
    and f: "func (goroutines s ! t) = nodeInfo pubkey coords"
    and pc: "\<forall>as. pc (goroutines s ! t) \<noteq> Acts as"
  shows "\<not> map_has (nodeInfoVisited (node s)) (hex_EncodeToString pubkey)"
proof
  assume "map_has (nodeInfoVisited (node s)) (hex_EncodeToString pubkey)"
  moreover have "stored_by_fetch s" unfolding r by (rule stored_by_fetch_reachable)
  ultimately obtain i as where i: "i < length (goroutines s)"
    "is_fetch (hex_EncodeToString pubkey) (goroutines s ! i)" "pc (goroutines s ! i) = Acts as"
    unfolding stored_by_fetch_def by blast
  have "is_fetch (hex_EncodeToString pubkey) (goroutines s ! t)" using f by (simp add: is_fetch_def)
  with r i(1) t i(2) have "i = t" by (rule fetch_unique)
  with i(3) pc show False by simp
qed

lemma absent_step:
  assumes r: "s = exec cfg evs (init cfg)" and t: "t < length (goroutines s)"
    and f: "is_fetch key (goroutines s ! t)" and pc: "pc (goroutines s ! t) = Acts as"
    and a: "\<not> map_has (nodeInfoVisited (node s)) key"
  shows "\<not> map_has (nodeInfoVisited (node (step cfg ev s))) key"
proof -
  from step_nodeInfoVisited[of cfg ev s]
  consider "nodeInfoVisited (node (step cfg ev s)) = nodeInfoVisited (node s)"
    | p c res j where "tid ev < length (goroutines s)" "func (goroutines s ! tid ev) = nodeInfo p c"
        "pc (goroutines s ! tid ev) = N_Store res"
        "nodeInfoVisited (node (step cfg ev s)) = AList.update (hex_EncodeToString p) j (nodeInfoVisited (node s))"
    by blast
  then show ?thesis
  proof cases
    case 1
    with a show ?thesis by simp
  next
    case 2
    have "hex_EncodeToString p \<noteq> key"
    proof
      assume "hex_EncodeToString p = key"
      with 2(2) have "is_fetch key (goroutines s ! tid ev)" by (simp add: is_fetch_def)
      with r 2(1) t have "tid ev = t" using f by (rule fetch_unique)
      with 2(3) pc show False by simp
    qed
    with a show ?thesis unfolding 2(4) by (auto simp: map_has_update)
  qed
qed

lemma absent_exec:
  assumes "s = exec cfg evs (init cfg)" "t < length (goroutines s)"
    "is_fetch key (goroutines s ! t)" "pc (goroutines s ! t) = Acts as"
    "\<not> map_has (nodeInfoVisited (node s)) key"
  shows "\<not> map_has (nodeInfoVisited (node (exec cfg later s))) key"
  using assms
proof (induction later arbitrary: s evs as)
  case Nil
  then show ?case by simp
next
  case (Cons ev later)
  have r': "step cfg ev s = exec cfg (evs @ [ev]) (init cfg)" unfolding Cons.prems(1) exec_append by simp
  from acts_step[OF Cons.prems(2,4), of cfg ev] obtain as' where
    k: "t < length (goroutines (step cfg ev s))" "func (goroutines (step cfg ev s) ! t) = func (goroutines s ! t)"
       "pc (goroutines (step cfg ev s) ! t) = Acts as'" by blast
  have f': "is_fetch key (goroutines (step cfg ev s) ! t)" using Cons.prems(3) k(2) by (simp add: is_fetch_def)
  have a': "\<not> map_has (nodeInfoVisited (node (step cfg ev s))) key"
    using Cons.prems by (rule absent_step)
  from Cons.IH[OF r' k(1) f' k(3) a'] show ?case by simp
qed

lemma failed_fetch_forever:
  assumes r: "s = exec cfg evs (init cfg)" and t: "t < length (goroutines s)"
    and f: "func (goroutines s ! t) = nodeInfo pubkey coords"
    and pc: "\<forall>as. pc (goroutines s ! t) \<noteq> Acts as"
    and e: "tid ev = t"
    and st: "goroutines (step cfg ev s) ! t = g'" "func g' = nodeInfo pubkey coords" "pc g' = Acts as'"
      "nodeInfoVisited (node (step cfg ev s)) = nodeInfoVisited (node s)"
  shows "\<not> map_has (nodeInfoVisited (node (exec cfg later (step cfg ev s)))) (hex_EncodeToString pubkey) \<and>
         found_in (exec cfg later (step cfg ev s)) (hex_EncodeToString pubkey)"
proof -
  let ?key = "hex_EncodeToString pubkey"
  have a: "\<not> map_has (nodeInfoVisited (node s)) ?key" using r t f pc by (rule absent_at_fetch)
  have r': "step cfg ev s = exec cfg (evs @ [ev]) (init cfg)" unfolding r exec_append by simp
  from step_goroutines[OF refl, of cfg ev s] obtain g'' new where
    g: "goroutines (step cfg ev s) = (goroutines s)[tid ev := g''] @ new" by blast
  have t': "t < length (goroutines (step cfg ev s))" unfolding g using t by simp
  have f': "is_fetch ?key (goroutines (step cfg ev s) ! t)" unfolding st(1) using st(2) by (simp add: is_fetch_def)
  have p': "pc (goroutines (step cfg ev s) ! t) = Acts as'" unfolding st(1) by (rule st(3))
  have a': "\<not> map_has (nodeInfoVisited (node (step cfg ev s))) ?key" unfolding st(4) by (rule a)
  have 1: "\<not> map_has (nodeInfoVisited (node (exec cfg later (step cfg ev s)))) ?key"
    using r' t' f' p' a' by (rule absent_exec)
  have "is_fetch ?key (goroutines s ! t)" using f by (simp add: is_fetch_def)
  with r t have "found_in s ?key" by (rule fetch_found)
  then have "found_in (exec cfg (ev # later) s) ?key" unfolding found_in_def by (rule exec_found)
  then show ?thesis using 1 by simp
qed


lemma seed_fetching_state:
  "exec demo_cfg seed_fetching (init demo_cfg) =
    \<lparr>node = \<lparr>dhtWaitGroup = 0, dhtVisited = [(''01'', found_attempt [])], dhtMutex = False,
             nodeInfoWaitGroup = 1, nodeInfoVisited = [], nodeInfoMutex = False\<rparr>,
     goroutines =
       [\<lparr>func = main, pc = Acts [WG_Wait dhtWG, WG_Wait nodeInfoWG, Lock dhtMu, Lock nodeInfoMu, Aggregate], effects = []\<rparr>,
        \<lparr>func = dhtPing [1] [], pc = Acts [], effects = [Sleep 0, Invoke (DHTPing [1] [])]\<rparr>,
        \<lparr>func = nodeInfo [1] [], pc = N_Retry, effects = []\<rparr>],
     stdout = [], written = None, panicked = False\<rparr>"
  by code_simp

lemma seed_fetched_blank_state:
  "exec demo_cfg (seed_fetching @ [blank_ev 2]) (init demo_cfg) =
    \<lparr>node = \<lparr>dhtWaitGroup = 0, dhtVisited = [(''01'', found_attempt [])], dhtMutex = False,
             nodeInfoWaitGroup = 1, nodeInfoVisited = [], nodeInfoMutex = False\<rparr>,
     goroutines =
       [\<lparr>func = main, pc = Acts [WG_Wait dhtWG, WG_Wait nodeInfoWG, Lock dhtMu, Lock nodeInfoMu, Aggregate], effects = []\<rparr>,
        \<lparr>func = dhtPing [1] [], pc = Acts [], effects = [Sleep 0, Invoke (DHTPing [1] [])]\<rparr>,
        \<lparr>func = nodeInfo [1] [], pc = N_Store [], effects = [Sleep 0, Invoke (GetNodeInfo [1] [])]\<rparr>],
     stdout = [], written = None, panicked = False\<rparr>"
  by code_simp

subsection \<open>The default retry count\<close>

text \<open>
  With the default of five attempts, every probe failing and \<open>rand.Intn\<close> returning 999,
  the loop sleeps 999 ms, twice that, and so on up to sixteen times that, calls five
  times, and reports the last failure.
\<close>

lemma five_failures:
  "dhtPing_retry demo_cfg (fail_ev 1) [1] [] =
     ((zero_DHTRes, Some ''timeout''),
      [Sleep 999000000, Invoke (DHTPing [1] []), Sleep 1998000000, Invoke (DHTPing [1] []),
       Sleep 3996000000, Invoke (DHTPing [1] []), Sleep 7992000000, Invoke (DHTPing [1] []),
       Sleep 15984000000, Invoke (DHTPing [1] [])])"
  by code_simp

section \<open>Properties of the crawler\<close>

text \<open>
  C1. The record update of \<open>dhtPing\<close> overwrites the stored entry of an identity exactly
  when the new probe succeeded or the stored entry had not succeeded, and otherwise
  leaves the map as it is. So a record that is found stays found: through every later
  step of every schedule, whatever the probes answer (command), and through any
  sequence of record updates (\<open>crawler.go\<close>).
\<close>

theorem found_is_permanent:
  "(map_of (dhtPing_write key info visited) key = Some info \<longleftrightarrow>
      Found info \<or> \<not> Found (map_index zero_attempt visited key)) \<and>
   (\<not> (Found info \<or> \<not> Found (map_index zero_attempt visited key)) \<longrightarrow>
      dhtPing_write key info visited = visited) \<and>
   (Found (map_index zero_attempt (dhtVisited (node s)) k) \<longrightarrow>
      Found (map_index zero_attempt (dhtVisited (node (exec cfg evs s))) k)) \<and>
   (map_of (crawler_dhtPing_write pubkey cinfo cvisited) pubkey = Some cinfo \<longleftrightarrow>
      crawler_found cinfo \<or> \<not> crawler_found (map_index crawler_zero_attempt cvisited pubkey)) \<and>
   (\<not> (crawler_found cinfo \<or> \<not> crawler_found (map_index crawler_zero_attempt cvisited pubkey)) \<longrightarrow>
      crawler_dhtPing_write pubkey cinfo cvisited = cvisited) \<and>
   (crawler_found (map_index crawler_zero_attempt cvisited pk) \<longrightarrow>
      crawler_found (map_index crawler_zero_attempt
        (fold (\<lambda>(p, i). crawler_dhtPing_write p i) probes cvisited) pk))"
proof (intro conjI impI)
  show "map_of (dhtPing_write key info visited) key = Some info \<longleftrightarrow>
      Found info \<or> \<not> Found (map_index zero_attempt visited key)"
    by (rule dhtPing_write_overwrites)
  show "dhtPing_write key info visited = visited"
    if "\<not> (Found info \<or> \<not> Found (map_index zero_attempt visited key))"
    using that by (simp add: dhtPing_write_def)
  show "Found (map_index zero_attempt (dhtVisited (node (exec cfg evs s))) k)"
    if "Found (map_index zero_attempt (dhtVisited (node s)) k)"
    using that by (rule exec_found)
  show "map_of (crawler_dhtPing_write pubkey cinfo cvisited) pubkey = Some cinfo \<longleftrightarrow>
      crawler_found cinfo \<or> \<not> crawler_found (map_index crawler_zero_attempt cvisited pubkey)"
    by (rule crawler_write_overwrites)
  show "crawler_dhtPing_write pubkey cinfo cvisited = cvisited"
    if "\<not> (crawler_found cinfo \<or> \<not> crawler_found (map_index crawler_zero_attempt cvisited pubkey))"
    using that by (simp add: crawler_dhtPing_write_def)
  show "crawler_found (map_index crawler_zero_attempt (fold (\<lambda>(p, i). crawler_dhtPing_write p i) probes cvisited) pk)"
    if "crawler_found (map_index crawler_zero_attempt cvisited pk)"
    using that by (rule crawler_fold_found)
qed

lemma late_failure_step:
  "dhtVisited (node (exec demo_cfg [fail_ev 1] late_failure)) = [(''01'', found_attempt [])]"
  by (simp add: late_failure_def fail_ev_def step_def step_dhtPing_def Let_def dhtPing_write_def
        dhtPing_info_def map_index_def set_pc_def found_attempt_def hextable_def)

theorem found_is_permanent_witness:
  "Found (map_index zero_attempt (dhtVisited (node late_failure)) ''01'') \<and>
   Found (map_index zero_attempt (dhtVisited (node (exec demo_cfg [fail_ev 1] late_failure))) ''01'') \<and>
   dhtVisited (node (exec demo_cfg [fail_ev 1] late_failure)) = [(''01'', found_attempt [])] \<and>
   dhtPing_write ''01'' (dhtPing_info demo_cfg [1] [5] (Some ''timeout'')) [(''01'', found_attempt [])]
     = [(''01'', found_attempt [])] \<and>
   map_of (dhtPing_write ''01'' (found_attempt [5]) [(''01'', found_attempt [])]) ''01'' = Some (found_attempt [5]) \<and>
   crawler_dhtPing_write [1] \<lparr>crawler_coords = [], crawler_found = False\<rparr>
       [([1], \<lparr>crawler_coords = [5], crawler_found = True\<rparr>)]
     = [([1], \<lparr>crawler_coords = [5], crawler_found = True\<rparr>)] \<and>
   crawler_found (map_index crawler_zero_attempt
     (fold (\<lambda>(p, i). crawler_dhtPing_write p i)
        [([1], \<lparr>crawler_coords = [], crawler_found = False\<rparr>), ([2], \<lparr>crawler_coords = [], crawler_found = False\<rparr>)]
        [([1], \<lparr>crawler_coords = [5], crawler_found = True\<rparr>)]) [1])"
  using found_is_permanent[of "''01''" "dhtPing_info demo_cfg [1] [5] (Some ''timeout'')" "[(''01'', found_attempt [])]"
      late_failure "''01''" demo_cfg "[fail_ev 1]"
      "[1]" "\<lparr>crawler_coords = [], crawler_found = False\<rparr>" "[([1], \<lparr>crawler_coords = [5], crawler_found = True\<rparr>)]"
      "[1]" "[([1], \<lparr>crawler_coords = [], crawler_found = False\<rparr>), ([2], \<lparr>crawler_coords = [], crawler_found = False\<rparr>)]"]
    late_failure_step
  by (simp add: late_failure_def map_index_def found_attempt_def dhtPing_info_def dhtPing_write_def
        crawler_dhtPing_write_def crawler_zero_attempt_def Let_def)

text \<open>
  C2. In every state of every run, the number of \<open>nodeInfo\<close> goroutines scheduled for
  an identity, plus the number of \<open>dhtPing\<close> goroutines about to schedule one, is 1 if
  the identity's record is found and 0 otherwise (a returned goroutine stays in the
  list, so the list holds every goroutine of the run). So a metadata fetch is scheduled
  at most once per identity, and only with the record's change to found. The statements
  after the record update hold a \<open>go n.nodeInfo\<close> exactly when the prior entry was not
  found and this probe succeeded, for this key and these coordinates; \<open>main\<close> holds none.
\<close>

theorem metadata_fetch_once:
  "total (fetches key) (goroutines (exec cfg evs (init cfg))) =
     of_bool (found_in (exec cfg evs (init cfg)) key) \<and>
   length (filter (is_fetch key) (goroutines (exec cfg evs (init cfg)))) \<le> 1 \<and>
   length (filter (is_nodeInfo_of pubkey) (goroutines (exec cfg evs (init cfg)))) \<le> 1 \<and>
   (0 < length (filter (is_fetch key) (goroutines (exec cfg evs (init cfg)))) \<longrightarrow>
      found_in (exec cfg evs (init cfg)) key) \<and>
   (Go (nodeInfo p c) \<in> set (dhtPing_rest oldInfo info pubkey coords res) \<longleftrightarrow>
      \<not> Found oldInfo \<and> Found info \<and> p = pubkey \<and> c = coords) \<and>
   length (filter (is_Go_fetch key) (dhtPing_rest oldInfo info pubkey coords res)) =
      of_bool (\<not> Found oldInfo \<and> Found info \<and> hex_EncodeToString pubkey = key) \<and>
   Go (nodeInfo p c) \<notin> set (main_body cfg) \<and>
   (Go (nodeInfo p c) \<in> set (crawler_dhtPing_rest coldInfo cinfo pubkey coords res) \<longleftrightarrow>
      \<not> crawler_found coldInfo \<and> crawler_found cinfo \<and> p = pubkey \<and> c = coords)"
proof -
  let ?s = "exec cfg evs (init cfg)"
  have eq: "total (fetches key) (goroutines ?s) = of_bool (found_in ?s key)" for key
    by (rule fetch_reachable)
  have le: "length (filter (is_fetch key) (goroutines ?s)) \<le> of_bool (found_in ?s key)" for key
    using filter_le_total[of key "goroutines ?s"] eq[of key] by simp
  have 1: "length (filter (is_fetch key) (goroutines ?s)) \<le> 1" for key
    using le[of key] by (cases "found_in ?s key") simp_all
  have 2: "length (filter (is_nodeInfo_of pubkey) (goroutines ?s)) \<le> 1"
    using nodeInfo_of_le[of pubkey "goroutines ?s"] 1[of "hex_EncodeToString pubkey"] by simp
  have 3: "0 < length (filter (is_fetch key) (goroutines ?s)) \<longrightarrow> found_in ?s key"
    using le[of key] by (cases "found_in ?s key") simp_all
  have 4: "Go (nodeInfo p c) \<notin> set (main_body cfg)" by (simp add: main_body_def)
  show ?thesis
    using eq[of key] 1[of key] 2 3 4 Go_nodeInfo_rest[of p c oldInfo info pubkey coords res]
      fetches_rest[of key oldInfo info pubkey coords res]
      Go_nodeInfo_crawler_rest[of p c coldInfo cinfo pubkey coords res]
    by blast
qed

theorem metadata_fetch_once_witness:
  "found_in (exec demo_cfg seed_found (init demo_cfg)) ''01'' \<and>
   total (fetches ''01'') (goroutines (exec demo_cfg seed_found (init demo_cfg))) = 1 \<and>
   length (filter (is_fetch ''01'') (goroutines (exec demo_cfg seed_found (init demo_cfg)))) = 1 \<and>
   \<not> found_in (exec demo_cfg seed_found (init demo_cfg)) ''02'' \<and>
   total (fetches ''02'') (goroutines (exec demo_cfg seed_found (init demo_cfg))) = 0 \<and>
   Go (nodeInfo [1] []) \<in> set (dhtPing_rest zero_attempt (found_attempt []) [1] [] zero_DHTRes) \<and>
   Go (nodeInfo [1] []) \<notin> set (dhtPing_rest (found_attempt []) (found_attempt []) [1] [] zero_DHTRes)"
proof -
  have a: "found_in (exec demo_cfg seed_found (init demo_cfg)) ''01''"
    and b: "\<not> found_in (exec demo_cfg seed_found (init demo_cfg)) ''02''"
    and c: "length (filter (is_fetch ''01'') (goroutines (exec demo_cfg seed_found (init demo_cfg)))) = 1"
    unfolding seed_found_state
    by (simp_all add: found_in_def map_index_def found_attempt_def zero_attempt_def is_fetch_def hextable_def)
  have d: "\<not> Found zero_attempt" "Found (found_attempt [])"
    by (simp_all add: zero_attempt_def found_attempt_def)
  from a b c d
    metadata_fetch_once[of "''01''" demo_cfg seed_found "[1]" "[1]" "[]" zero_attempt "found_attempt []" "[]" zero_DHTRes]
    metadata_fetch_once[of "''02''" demo_cfg seed_found "[1]" "[1]" "[]" "found_attempt []" "found_attempt []" "[]" zero_DHTRes]
  show ?thesis by simp
qed

text \<open>
  C3. The sleep before attempt \<open>i\<close> of the retry loop is the product
  \<open>time.Millisecond * Duration(r * (1 << i))\<close>, with \<open>r\<close> drawn from \<open>[0, 1000)\<close>, and
  this product overflows. With \<open>-retry 35\<close>, every probe failing and \<open>rand.Intn\<close>
  returning 999, the loop of the command reaches attempt 34, and the duration it sleeps
  for there is not 999 ms times \<open>2 ^ 34\<close> but a negative number of nanoseconds. On a
  32-bit target the product in \<open>int\<close> wraps first: with \<open>-retry 23\<close> the duration before
  attempt 22 is negative.
\<close>

theorem backoff_wraps_at_attempt_34:
  "Sleep (backoff 64 999 34) \<in> set (snd (dhtPing_retry (demo_cfg\<lparr>retryCount := 35\<rparr>) (fail_ev 1) [1] [])) \<and>
   sint (backoff 64 999 34) = - 1284054758893551616 \<and>
   Sleep (backoff 32 999 22) \<in>
     set (snd (dhtPing_retry (demo_cfg\<lparr>IntSize := 32, retryCount := 23\<rparr>) (fail_ev 1) [1] [])) \<and>
   sint (backoff 32 999 22) = - 104857600000000"
proof -
  have 1: "Sleep (backoff 64 999 34) \<in> set (snd (dhtPing_retry (demo_cfg\<lparr>retryCount := 35\<rparr>) (fail_ev 1) [1] []))"
    by code_simp
  have 2: "sint (backoff 64 999 34) = - 1284054758893551616"
    by (simp add: backoff_def Millisecond_def go_int_def)
  have 3: "Sleep (backoff 32 999 22) \<in>
     set (snd (dhtPing_retry (demo_cfg\<lparr>IntSize := 32, retryCount := 23\<rparr>) (fail_ev 1) [1] []))"
    by code_simp
  have 4: "sint (backoff 32 999 22) = - 104857600000000"
    by (simp add: backoff_def Millisecond_def go_int_def)
  show ?thesis using 1 2 3 4 by (intro conjI)
qed

text \<open>
  C4. In every state of every run, the results computed from the two maps hold:
  attempted, the number of identities in the discovery map; successful, the number of
  them whose record is found; failed, their difference; metadata-successful, the number
  of identities in the metadata map; metadata-failed, successful minus
  metadata-successful; and the two maps. When \<open>main\<close> has returned, every goroutine
  has returned, both counters are zero, the summary printed last and the document
  written (unless the write failed) are these results of the maps as they are, and no
  further step changes the state; before \<open>main\<close> returns nothing is written. In
  \<open>crawler.go\<close> the same counts are printed, and the document holds the two metadata
  counts.
\<close>

theorem results_are_counts_of_the_final_maps:
  "NodesAttempted (Meta (make_results (node (exec cfg evs (init cfg))))) =
     int (card (dom (map_of (dhtVisited (node (exec cfg evs (init cfg))))))) \<and>
   NodesSuccessful (Meta (make_results (node (exec cfg evs (init cfg))))) =
     int (card {k. \<exists>a. map_of (dhtVisited (node (exec cfg evs (init cfg)))) k = Some a \<and> Found a}) \<and>
   NodesFailed (Meta (make_results (node (exec cfg evs (init cfg))))) =
     NodesAttempted (Meta (make_results (node (exec cfg evs (init cfg))))) -
     NodesSuccessful (Meta (make_results (node (exec cfg evs (init cfg))))) \<and>
   NodeInfoSuccessful (Meta (make_results (node (exec cfg evs (init cfg))))) =
     int (card (dom (map_of (nodeInfoVisited (node (exec cfg evs (init cfg))))))) \<and>
   NodeInfoFailed (Meta (make_results (node (exec cfg evs (init cfg))))) =
     NodesSuccessful (Meta (make_results (node (exec cfg evs (init cfg))))) -
     NodeInfoSuccessful (Meta (make_results (node (exec cfg evs (init cfg))))) \<and>
   Topology (make_results (node (exec cfg evs (init cfg)))) = dhtVisited (node (exec cfg evs (init cfg))) \<and>
   NodeInfo (make_results (node (exec cfg evs (init cfg)))) = nodeInfoVisited (node (exec cfg evs (init cfg))) \<and>
   (returned (goroutines (exec cfg evs (init cfg)) ! 0) \<longrightarrow>
      (\<forall>t < length (goroutines (exec cfg evs (init cfg))). returned (goroutines (exec cfg evs (init cfg)) ! t)) \<and>
      dhtWaitGroup (node (exec cfg evs (init cfg))) = 0 \<and>
      nodeInfoWaitGroup (node (exec cfg evs (init cfg))) = 0 \<and>
      (\<exists>out. stdout (exec cfg evs (init cfg)) = out @ summary (make_results (node (exec cfg evs (init cfg))))) \<and>
      (written (exec cfg evs (init cfg)) = None \<or>
       written (exec cfg evs (init cfg)) = Some (make_results (node (exec cfg evs (init cfg))))) \<and>
      (\<forall>evs'. exec cfg evs' (exec cfg evs (init cfg)) = exec cfg evs (init cfg))) \<and>
   (\<not> returned (goroutines (exec cfg evs (init cfg)) ! 0) \<longrightarrow> written (exec cfg evs (init cfg)) = None) \<and>
   crawler_summary cvisited cnodeinfo =
     [Count (len cvisited) ''nodes were processed'',
      Count (int (length (filter (\<lambda>(k, a). crawler_found a) cvisited))) ''nodes were found'',
      Count (len cvisited - int (length (filter (\<lambda>(k, a). crawler_found a) cvisited))) ''nodes were not found'',
      Blank,
      Count (len cnodeinfo) ''nodes responded with nodeinfo'',
      Count (int (length (filter (\<lambda>(k, a). crawler_found a) cvisited)) - len cnodeinfo)
        ''nodes did not respond with nodeinfo''] \<and>
   crawler_make_meta cvisited cnodeinfo =
     \<lparr>crawler_NodesSuccessful = len cnodeinfo,
      crawler_NodesFailed = int (length (filter (\<lambda>(k, a). crawler_found a) cvisited)) - len cnodeinfo\<rparr>"
proof -
  let ?s = "exec cfg evs (init cfg)"
  have i: "inv cfg ?s" by (rule inv_reachable)
  have f: "final ?s" by (rule final_reachable)
  have 1: "NodesAttempted (Meta (make_results (node ?s))) = int (card (dom (map_of (dhtVisited (node ?s)))))"
    by (simp add: make_results_fields len_card[OF distinct_reachable(1)])
  have 2: "NodesSuccessful (Meta (make_results (node ?s))) =
      int (card {k. \<exists>a. map_of (dhtVisited (node ?s)) k = Some a \<and> Found a})"
    by (simp add: make_results_fields count_found_card[OF distinct_reachable(1)])
  have 3: "NodesFailed (Meta (make_results (node ?s))) =
     NodesAttempted (Meta (make_results (node ?s))) - NodesSuccessful (Meta (make_results (node ?s)))"
    by (simp add: make_results_fields)
  have 4: "NodeInfoSuccessful (Meta (make_results (node ?s))) = int (card (dom (map_of (nodeInfoVisited (node ?s)))))"
    by (simp add: make_results_fields len_card[OF distinct_reachable(2)])
  have 5: "NodeInfoFailed (Meta (make_results (node ?s))) =
     NodesSuccessful (Meta (make_results (node ?s))) - NodeInfoSuccessful (Meta (make_results (node ?s)))"
    by (simp add: make_results_fields)
  have 6: "Topology (make_results (node ?s)) = dhtVisited (node ?s)"
    "NodeInfo (make_results (node ?s)) = nodeInfoVisited (node ?s)"
    by (simp_all add: make_results_fields)
  have 7: "returned (goroutines ?s ! 0) \<longrightarrow>
      (\<forall>t < length (goroutines ?s). returned (goroutines ?s ! t)) \<and>
      dhtWaitGroup (node ?s) = 0 \<and> nodeInfoWaitGroup (node ?s) = 0 \<and>
      (\<exists>out. stdout ?s = out @ summary (make_results (node ?s))) \<and>
      (written ?s = None \<or> written ?s = Some (make_results (node ?s))) \<and>
      (\<forall>evs'. exec cfg evs' ?s = ?s)"
  proof
    assume r: "returned (goroutines ?s ! 0)"
    have a: "\<forall>t < length (goroutines ?s). returned (goroutines ?s ! t)"
      using returned_all[OF i r] by blast
    have b: "dhtWaitGroup (node ?s) = 0 \<and> nodeInfoWaitGroup (node ?s) = 0"
      by (rule returned_counters[OF i r])
    have c: "(\<exists>out. stdout ?s = out @ summary (make_results (node ?s))) \<and>
      (written ?s = None \<or> written ?s = Some (make_results (node ?s)))"
      using f r unfolding final_def by blast
    have d: "\<forall>evs'. exec cfg evs' ?s = ?s" using frozen_exec[OF i r] by blast
    from a b c d show "(\<forall>t < length (goroutines ?s). returned (goroutines ?s ! t)) \<and>
      dhtWaitGroup (node ?s) = 0 \<and> nodeInfoWaitGroup (node ?s) = 0 \<and>
      (\<exists>out. stdout ?s = out @ summary (make_results (node ?s))) \<and>
      (written ?s = None \<or> written ?s = Some (make_results (node ?s))) \<and>
      (\<forall>evs'. exec cfg evs' ?s = ?s)" by blast
  qed
  have 8: "\<not> returned (goroutines ?s ! 0) \<longrightarrow> written ?s = None"
    using f unfolding final_def by blast
  have 9: "crawler_summary cvisited cnodeinfo =
     [Count (len cvisited) ''nodes were processed'',
      Count (int (length (filter (\<lambda>(k, a). crawler_found a) cvisited))) ''nodes were found'',
      Count (len cvisited - int (length (filter (\<lambda>(k, a). crawler_found a) cvisited))) ''nodes were not found'',
      Blank,
      Count (len cnodeinfo) ''nodes responded with nodeinfo'',
      Count (int (length (filter (\<lambda>(k, a). crawler_found a) cvisited)) - len cnodeinfo)
        ''nodes did not respond with nodeinfo'']"
    by (simp add: crawler_summary_def crawler_make_meta_def Let_def crawler_count_found_filter)
  have 10: "crawler_make_meta cvisited cnodeinfo =
     \<lparr>crawler_NodesSuccessful = len cnodeinfo,
      crawler_NodesFailed = int (length (filter (\<lambda>(k, a). crawler_found a) cvisited)) - len cnodeinfo\<rparr>"
    by (simp add: crawler_make_meta_def Let_def crawler_count_found_filter)
  show ?thesis
    using 1 2 3 4 5 6 7 8 9 10 by (intro conjI)
qed

theorem results_are_counts_of_the_final_maps_witness:
  "returned (goroutines (exec demo_cfg run_without_metadata (init demo_cfg)) ! 0) \<and>
   written (exec demo_cfg run_without_metadata (init demo_cfg)) =
     Some (make_results (node (exec demo_cfg run_without_metadata (init demo_cfg)))) \<and>
   Meta (make_results (node (exec demo_cfg run_without_metadata (init demo_cfg)))) =
     \<lparr>NodesAttempted = 1, NodesSuccessful = 1, NodesFailed = 0, NodeInfoSuccessful = 0, NodeInfoFailed = 1\<rparr> \<and>
   card (dom (map_of (dhtVisited (node (exec demo_cfg run_without_metadata (init demo_cfg)))))) = 1 \<and>
   card (dom (map_of (nodeInfoVisited (node (exec demo_cfg run_without_metadata (init demo_cfg)))))) = 0 \<and>
   card {k. \<exists>a. map_of (dhtVisited (node (exec demo_cfg run_without_metadata (init demo_cfg)))) k = Some a \<and> Found a} = 1 \<and>
   returned (goroutines (exec demo_cfg run_without_metadata (init demo_cfg)) ! 2) \<and>
   exec demo_cfg [ok_ev 2 []] (exec demo_cfg run_without_metadata (init demo_cfg)) =
     exec demo_cfg run_without_metadata (init demo_cfg) \<and>
   \<not> returned (goroutines (exec demo_cfg seed_found (init demo_cfg)) ! 0) \<and>
   written (exec demo_cfg seed_found (init demo_cfg)) = None"
proof -
  have a: "returned (goroutines (exec demo_cfg run_without_metadata (init demo_cfg)) ! 0)"
    "written (exec demo_cfg run_without_metadata (init demo_cfg)) \<noteq> None"
    "length (goroutines (exec demo_cfg run_without_metadata (init demo_cfg))) = 3"
    "Meta (make_results (node (exec demo_cfg run_without_metadata (init demo_cfg)))) =
     \<lparr>NodesAttempted = 1, NodesSuccessful = 1, NodesFailed = 0, NodeInfoSuccessful = 0, NodeInfoFailed = 1\<rparr>"
    unfolding run_without_metadata_state
    by (simp_all add: returned_def make_results_def Let_def len_def count_found_def found_attempt_def)
  have b: "\<not> returned (goroutines (exec demo_cfg seed_found (init demo_cfg)) ! 0)"
    unfolding seed_found_state by (simp add: returned_def)
  note t1 = results_are_counts_of_the_final_maps[of demo_cfg run_without_metadata "[]" "[]"]
  note t2 = results_are_counts_of_the_final_maps[of demo_cfg seed_found "[]" "[]"]
  have r2: "returned (goroutines (exec demo_cfg run_without_metadata (init demo_cfg)) ! 2)"
    using t1 a(1,3) by auto
  have w: "written (exec demo_cfg run_without_metadata (init demo_cfg)) =
     Some (make_results (node (exec demo_cfg run_without_metadata (init demo_cfg))))"
    using t1 a(1,2) by blast
  have fr: "exec demo_cfg [ok_ev 2 []] (exec demo_cfg run_without_metadata (init demo_cfg)) =
     exec demo_cfg run_without_metadata (init demo_cfg)"
    using t1 a(1) by blast
  have c1: "card (dom (map_of (dhtVisited (node (exec demo_cfg run_without_metadata (init demo_cfg)))))) = 1"
    using t1 a(4) by simp
  have c2: "card (dom (map_of (nodeInfoVisited (node (exec demo_cfg run_without_metadata (init demo_cfg)))))) = 0"
    using t1 a(4) by simp
  have c3: "card {k. \<exists>a. map_of (dhtVisited (node (exec demo_cfg run_without_metadata (init demo_cfg)))) k = Some a \<and> Found a} = 1"
    using t1 a(4) by simp
  have n: "written (exec demo_cfg seed_found (init demo_cfg)) = None"
    using t2 b by blast
  show ?thesis using a(1) w a(4) c1 c2 c3 r2 fr b n by (intro conjI)
qed

text \<open>
  C5. Take any state of any run in which a goroutine of \<open>dhtPing\<close> stands before its
  record update with the mutex free, and let it run alone to its return. If the stored
  entry was not found and the probe succeeded, the goroutines it has scheduled are the
  metadata fetch followed by one \<open>dhtPing\<close> for every rumour of the response, in order,
  with the rumour's key and coordinates; in every other case it has scheduled nothing,
  and its statements after the update are the unlock and the \<open>Done\<close> alone. The
  statements of \<open>crawler.go\<close> start the same functions.
\<close>

theorem fan_out_only_on_first_success:
  "(s = exec cfg evs (init cfg) \<and>
    t < length (goroutines s) \<and>
    func (goroutines s ! t) = dhtPing pubkey coords \<and>
    pc (goroutines s ! t) = D_Update res err \<and>
    \<not> dhtMutex (node s) \<and>
    oldInfo = map_index zero_attempt (dhtVisited (node s)) (hex_EncodeToString pubkey) \<and>
    (\<forall>e \<in> set run. tid e = t) \<and>
    length run = Suc (length (dhtPing_rest oldInfo (dhtPing_info cfg pubkey coords err) pubkey coords res))
    \<longrightarrow>
    goroutines (exec cfg run s) =
      (goroutines s)[t := (goroutines s ! t)\<lparr>pc := Acts []\<rparr>] @
      (if \<not> Found oldInfo \<and> err = None
       then spawn (nodeInfo pubkey coords) # map (\<lambda>i. spawn (dhtPing (PublicKey i) (entry_Coords i))) (Infos res)
       else [])) \<and>
   started (dhtPing_rest old info pubkey coords res) =
     (if \<not> Found old \<and> Found info
      then nodeInfo pubkey coords # map (\<lambda>i. dhtPing (PublicKey i) (entry_Coords i)) (Infos res)
      else []) \<and>
   (\<not> (\<not> Found old \<and> Found info) \<longrightarrow>
      dhtPing_rest old info pubkey coords res = [Unlock dhtMu, WG_Done dhtWG]) \<and>
   started (crawler_dhtPing_rest cold cinfo pubkey coords res) =
     (if \<not> crawler_found cold \<and> crawler_found cinfo
      then nodeInfo pubkey coords # map (\<lambda>i. dhtPing (PublicKey i) (entry_Coords i)) (Infos res)
      else []) \<and>
   (\<not> (\<not> crawler_found cold \<and> crawler_found cinfo) \<longrightarrow>
      crawler_dhtPing_rest cold cinfo pubkey coords res = [Unlock dhtMu, WG_Done dhtWG])"
proof -
  have 1: "goroutines (exec cfg run s) =
      (goroutines s)[t := (goroutines s ! t)\<lparr>pc := Acts []\<rparr>] @
      (if \<not> Found oldInfo \<and> err = None
       then spawn (nodeInfo pubkey coords) # map (\<lambda>i. spawn (dhtPing (PublicKey i) (entry_Coords i))) (Infos res)
       else [])"
    if h: "s = exec cfg evs (init cfg)" "t < length (goroutines s)"
      "func (goroutines s ! t) = dhtPing pubkey coords" "pc (goroutines s ! t) = D_Update res err"
      "\<not> dhtMutex (node s)"
      "oldInfo = map_index zero_attempt (dhtVisited (node s)) (hex_EncodeToString pubkey)"
      "\<forall>e \<in> set run. tid e = t"
      "length run = Suc (length (dhtPing_rest oldInfo (dhtPing_info cfg pubkey coords err) pubkey coords res))"
  proof -
    have c: "core cfg s" unfolding h(1) by (rule core_reachable)
    have fi: "Found (dhtPing_info cfg pubkey coords err) = (err = None)" by (simp add: dhtPing_info_def)
    from update_then_rest[OF c h(2,3,4,5,7) h(8)[unfolded h(6)]]
    have "goroutines (exec cfg run s) =
           (goroutines s)[t := (goroutines s ! t)\<lparr>pc := Acts []\<rparr>] @
           map spawn (started (dhtPing_rest oldInfo (dhtPing_info cfg pubkey coords err) pubkey coords res))"
      unfolding h(6) by simp
    then show ?thesis unfolding started_rest fi by simp
  qed
  have 2: "\<not> (\<not> Found old \<and> Found info) \<longrightarrow>
      dhtPing_rest old info pubkey coords res = [Unlock dhtMu, WG_Done dhtWG]"
    by (simp add: dhtPing_rest_def)
  have 3: "\<not> (\<not> crawler_found cold \<and> crawler_found cinfo) \<longrightarrow>
      crawler_dhtPing_rest cold cinfo pubkey coords res = [Unlock dhtMu, WG_Done dhtWG]"
    by (simp add: crawler_dhtPing_rest_def)
  show ?thesis
    using 1 2 3 started_rest[of old info pubkey coords res] started_crawler_rest[of cold cinfo pubkey coords res]
    by blast
qed

theorem fan_out_only_on_first_success_witness:
  "goroutines (exec demo_cfg (map (\<lambda>t. ok_ev t []) [1, 1, 1, 1, 1, 1, 1]) (exec demo_cfg seed_probed (init demo_cfg))) =
     [\<lparr>func = main, pc = Acts [WG_Wait dhtWG, WG_Wait nodeInfoWG, Lock dhtMu, Lock nodeInfoMu, Aggregate], effects = []\<rparr>,
      \<lparr>func = dhtPing [1] [], pc = Acts [], effects = [Sleep 0, Invoke (DHTPing [1] [])]\<rparr>,
      \<lparr>func = nodeInfo [1] [], pc = N_Dedup, effects = []\<rparr>,
      \<lparr>func = dhtPing [2] [3], pc = D_Dedup, effects = []\<rparr>] \<and>
   length (goroutines (exec demo_cfg (map (\<lambda>t. ok_ev t []) [1, 1, 1]) (exec demo_cfg seed_failed (init demo_cfg)))) = 2"
proof -
  let ?s = "exec demo_cfg seed_probed (init demo_cfg)"
  let ?run = "map (\<lambda>t. ok_ev t []) [1, 1, 1, 1, 1, 1, 1]"
  let ?s2 = "exec demo_cfg seed_failed (init demo_cfg)"
  let ?run2 = "map (\<lambda>t. ok_ev t []) [1, 1, 1]"
  have h1: "?s = exec demo_cfg seed_probed (init demo_cfg) \<and>
    1 < length (goroutines ?s) \<and>
    func (goroutines ?s ! 1) = dhtPing [1] [] \<and>
    pc (goroutines ?s ! 1) = D_Update \<lparr>res_Coords = [7], Infos = [rumour]\<rparr> None \<and>
    \<not> dhtMutex (node ?s) \<and>
    zero_attempt = map_index zero_attempt (dhtVisited (node ?s)) (hex_EncodeToString [1]) \<and>
    (\<forall>e \<in> set ?run. tid e = 1) \<and>
    length ?run = Suc (length (dhtPing_rest zero_attempt (dhtPing_info demo_cfg [1] [] None) [1] [] \<lparr>res_Coords = [7], Infos = [rumour]\<rparr>))"
    unfolding seed_probed_state
    by (simp add: map_index_def ok_ev_def dhtPing_rest_def dhtPing_info_def zero_attempt_def)
  have h2: "?s2 = exec demo_cfg seed_failed (init demo_cfg) \<and>
    1 < length (goroutines ?s2) \<and>
    func (goroutines ?s2 ! 1) = dhtPing [1] [] \<and>
    pc (goroutines ?s2 ! 1) = D_Update zero_DHTRes (Some ''timeout'') \<and>
    \<not> dhtMutex (node ?s2) \<and>
    zero_attempt = map_index zero_attempt (dhtVisited (node ?s2)) (hex_EncodeToString [1]) \<and>
    (\<forall>e \<in> set ?run2. tid e = 1) \<and>
    length ?run2 = Suc (length (dhtPing_rest zero_attempt (dhtPing_info demo_cfg [1] [] (Some ''timeout'')) [1] [] zero_DHTRes))"
    unfolding seed_failed_state
    by (simp add: map_index_def ok_ev_def dhtPing_rest_def dhtPing_info_def zero_attempt_def)
  note t1 = fan_out_only_on_first_success[of ?s demo_cfg seed_probed 1 "[1]" "[]" "\<lparr>res_Coords = [7], Infos = [rumour]\<rparr>" None
      zero_attempt ?run zero_attempt zero_attempt crawler_zero_attempt crawler_zero_attempt]
  note t2 = fan_out_only_on_first_success[of ?s2 demo_cfg seed_failed 1 "[1]" "[]" zero_DHTRes "Some ''timeout''"
      zero_attempt ?run2 zero_attempt zero_attempt crawler_zero_attempt crawler_zero_attempt]
  from t1 h1 have g1: "goroutines (exec demo_cfg ?run ?s) =
      (goroutines ?s)[1 := (goroutines ?s ! 1)\<lparr>pc := Acts []\<rparr>] @
      (if \<not> Found zero_attempt \<and> (None :: error) = None
       then spawn (nodeInfo [1] []) # map (\<lambda>i. spawn (dhtPing (PublicKey i) (entry_Coords i))) (Infos \<lparr>res_Coords = [7], Infos = [rumour]\<rparr>)
       else [])"
    by blast
  from t2 h2 have g2: "goroutines (exec demo_cfg ?run2 ?s2) =
      (goroutines ?s2)[1 := (goroutines ?s2 ! 1)\<lparr>pc := Acts []\<rparr>] @
      (if \<not> Found zero_attempt \<and> Some ''timeout'' = (None :: error)
       then spawn (nodeInfo [1] []) # map (\<lambda>i. spawn (dhtPing (PublicKey i) (entry_Coords i))) (Infos zero_DHTRes)
       else [])"
    by blast
  have a: "goroutines (exec demo_cfg ?run ?s) =
     [\<lparr>func = main, pc = Acts [WG_Wait dhtWG, WG_Wait nodeInfoWG, Lock dhtMu, Lock nodeInfoMu, Aggregate], effects = []\<rparr>,
      \<lparr>func = dhtPing [1] [], pc = Acts [], effects = [Sleep 0, Invoke (DHTPing [1] [])]\<rparr>,
      \<lparr>func = nodeInfo [1] [], pc = N_Dedup, effects = []\<rparr>,
      \<lparr>func = dhtPing [2] [3], pc = D_Dedup, effects = []\<rparr>]"
    unfolding g1 unfolding seed_probed_state by (simp add: zero_attempt_def spawn_def rumour_def)
  have b: "length (goroutines (exec demo_cfg ?run2 ?s2)) = 2"
    unfolding g2 unfolding seed_failed_state by simp
  show ?thesis using a b by simp
qed

text \<open>
  C6. Take any state of any run in which a goroutine of \<open>dhtPing\<close> stands at its dedup
  check while the discovery map holds a found record under its key. Whatever the other
  goroutines do from there, this goroutine is at the check, before its deferred \<open>Done\<close>
  or returned, it has slept and called nothing, and the record stays found; each of its
  own steps either waits (the mutex is held, or it has returned), moves it to the deferred
  \<open>Done\<close>, or decrements the discovery counter and returns, and changes nothing else:
  neither map, no goroutine is started. Run alone with the mutex free it has returned after
  two steps. The check finds the record under the key alone, whatever the coordinates of
  the call; the check of \<open>crawler.go\<close> is the same on its map.
\<close>

theorem found_identity_returns_at_dedup:
  "(s = exec cfg evs (init cfg) \<and>
    t < length (goroutines s) \<and>
    func (goroutines s ! t) = dhtPing pubkey coords \<and>
    pc (goroutines s ! t) = D_Dedup \<and>
    dhtPing_dedup (node s) pubkey
    \<longrightarrow>
    (\<forall>later ev.
       (let s' = exec cfg later s; g' = goroutines s' ! t
        in func g' = dhtPing pubkey coords \<and>
           at_dedup_return (pc g') \<and>
           effects g' = [] \<and>
           dhtPing_dedup (node s') pubkey \<and>
           (tid ev = t \<longrightarrow>
              step cfg ev s' =
                (if pc g' = D_Dedup \<and> \<not> dhtMutex (node s') then set_pc t (Acts [WG_Done dhtWG]) s'
                 else if pc g' = Acts [WG_Done dhtWG]
                 then set_pc t (Acts []) (s'\<lparr>node := (node s')\<lparr>dhtWaitGroup := dhtWaitGroup (node s') - 1\<rparr>\<rparr>)
                 else s')))) \<and>
    (\<not> dhtMutex (node s) \<and> tid ev1 = t \<and> tid ev2 = t \<longrightarrow>
       exec cfg [ev1, ev2] s =
         s\<lparr>node := (node s)\<lparr>dhtWaitGroup := dhtWaitGroup (node s) - 1\<rparr>,
           goroutines := (goroutines s)[t := (goroutines s ! t)\<lparr>pc := Acts []\<rparr>]\<rparr>)) \<and>
   (dhtPing_dedup n pubkey \<longleftrightarrow>
      (\<exists>a. map_of (dhtVisited n) (hex_EncodeToString pubkey) = Some a \<and> Found a)) \<and>
   (crawler_dhtPing_dedup visited pubkey \<longleftrightarrow>
      (\<exists>a. map_of visited pubkey = Some a \<and> crawler_found a))"
proof -
  have main: "(\<forall>later ev.
       (let s' = exec cfg later s; g' = goroutines s' ! t
        in func g' = dhtPing pubkey coords \<and>
           at_dedup_return (pc g') \<and>
           effects g' = [] \<and>
           dhtPing_dedup (node s') pubkey \<and>
           (tid ev = t \<longrightarrow>
              step cfg ev s' =
                (if pc g' = D_Dedup \<and> \<not> dhtMutex (node s') then set_pc t (Acts [WG_Done dhtWG]) s'
                 else if pc g' = Acts [WG_Done dhtWG]
                 then set_pc t (Acts []) (s'\<lparr>node := (node s')\<lparr>dhtWaitGroup := dhtWaitGroup (node s') - 1\<rparr>\<rparr>)
                 else s')))) \<and>
    (\<not> dhtMutex (node s) \<and> tid ev1 = t \<and> tid ev2 = t \<longrightarrow>
       exec cfg [ev1, ev2] s =
         s\<lparr>node := (node s)\<lparr>dhtWaitGroup := dhtWaitGroup (node s) - 1\<rparr>,
           goroutines := (goroutines s)[t := (goroutines s ! t)\<lparr>pc := Acts []\<rparr>]\<rparr>)"
    if h: "s = exec cfg evs (init cfg)" "t < length (goroutines s)"
      "func (goroutines s ! t) = dhtPing pubkey coords" "pc (goroutines s ! t) = D_Dedup"
      "dhtPing_dedup (node s) pubkey"
  proof -
    have c: "core cfg s" unfolding h(1) by (rule core_reachable)
    have "list_all fresh (goroutines s)" unfolding h(1) by (rule fresh_reachable)
    with h(2) have "fresh (goroutines s ! t)" by (simp add: list_all_length)
    with h(4) have e0: "effects (goroutines s ! t) = []" by (simp add: fresh_def)
    have a0: "at_dedup_return (pc (goroutines s ! t))" using h(4) by (simp add: at_dedup_return_def)
    have 1: "func (goroutines (exec cfg later s) ! t) = dhtPing pubkey coords \<and>
           at_dedup_return (pc (goroutines (exec cfg later s) ! t)) \<and>
           effects (goroutines (exec cfg later s) ! t) = [] \<and>
           dhtPing_dedup (node (exec cfg later s)) pubkey \<and>
           (tid ev = t \<longrightarrow>
              step cfg ev (exec cfg later s) =
                (if pc (goroutines (exec cfg later s) ! t) = D_Dedup \<and> \<not> dhtMutex (node (exec cfg later s))
                 then set_pc t (Acts [WG_Done dhtWG]) (exec cfg later s)
                 else if pc (goroutines (exec cfg later s) ! t) = Acts [WG_Done dhtWG]
                 then set_pc t (Acts []) ((exec cfg later s)\<lparr>node := (node (exec cfg later s))\<lparr>dhtWaitGroup := dhtWaitGroup (node (exec cfg later s)) - 1\<rparr>\<rparr>)
                 else exec cfg later s))" for later ev
    proof -
      let ?s = "exec cfg later s"
      have c': "core cfg ?s" unfolding h(1) exec_append[symmetric] by (rule core_reachable)
      note k = dedup_hit_exec[OF c h(2,3) a0 h(5), of later]
      from k have t': "t < length (goroutines ?s)" and f': "func (goroutines ?s ! t) = dhtPing pubkey coords"
        and a': "at_dedup_return (pc (goroutines ?s ! t))" and fd': "dhtPing_dedup (node ?s) pubkey"
        and e': "effects (goroutines ?s ! t) = []"
        using e0 by simp_all
      have "step cfg ev ?s =
                (if pc (goroutines ?s ! t) = D_Dedup \<and> \<not> dhtMutex (node ?s)
                 then set_pc t (Acts [WG_Done dhtWG]) ?s
                 else if pc (goroutines ?s ! t) = Acts [WG_Done dhtWG]
                 then set_pc t (Acts []) (?s\<lparr>node := (node ?s)\<lparr>dhtWaitGroup := dhtWaitGroup (node ?s) - 1\<rparr>\<rparr>)
                 else ?s)" if e: "tid ev = t"
      proof -
        note o = dedup_own_step[OF c' t' f' fd' e]
        from a' consider "pc (goroutines ?s ! t) = D_Dedup" "dhtMutex (node ?s)"
          | "pc (goroutines ?s ! t) = D_Dedup" "\<not> dhtMutex (node ?s)"
          | "pc (goroutines ?s ! t) = Acts [WG_Done dhtWG]" | "pc (goroutines ?s ! t) = Acts []"
          unfolding at_dedup_return_def by blast
        then show ?thesis
        proof cases
          case 1 then show ?thesis using o(1) by simp
        next
          case 2 then show ?thesis using o(2) by simp
        next
          case 3 then show ?thesis using o(3) by simp
        next
          case 4 then show ?thesis using o(4) by simp
        qed
      qed
      then show ?thesis using f' a' e' fd' by blast
    qed
    have 2: "exec cfg [ev1, ev2] s =
         s\<lparr>node := (node s)\<lparr>dhtWaitGroup := dhtWaitGroup (node s) - 1\<rparr>,
           goroutines := (goroutines s)[t := (goroutines s ! t)\<lparr>pc := Acts []\<rparr>]\<rparr>"
      if m: "\<not> dhtMutex (node s)" and e1: "tid ev1 = t" and e2: "tid ev2 = t"
    proof -
      let ?s1 = "set_pc t (Acts [WG_Done dhtWG]) s"
      have s1: "step cfg ev1 s = ?s1"
        using dedup_own_step(2)[OF c h(2,3,5) e1 h(4) m] .
      have c1: "core cfg ?s1" using core_step[OF s1 c] .
      have "step cfg ev2 ?s1 = set_pc t (Acts []) (?s1\<lparr>node := (node ?s1)\<lparr>dhtWaitGroup := dhtWaitGroup (node ?s1) - 1\<rparr>\<rparr>)"
        by (rule dedup_own_step(3)[OF c1 _ _ _ e2]) (use h in simp_all)
      then show ?thesis using s1 h(2) by (simp add: set_pc_def)
    qed
    show ?thesis unfolding Let_def using 1 2 by blast
  qed
  show ?thesis using main dedup_lookup[of n pubkey] crawler_dedup_lookup[of visited pubkey] by blast
qed

theorem found_identity_returns_at_dedup_witness:
  "exec demo_cfg [ok_ev 3 [], ok_ev 3 []] (exec demo_cfg seed_echoed (init demo_cfg)) =
    \<lparr>node = \<lparr>dhtWaitGroup = 0, dhtVisited = [(''01'', found_attempt [])], dhtMutex = False,
             nodeInfoWaitGroup = 1, nodeInfoVisited = [], nodeInfoMutex = False\<rparr>,
     goroutines =
       [\<lparr>func = main, pc = Acts [WG_Wait dhtWG, WG_Wait nodeInfoWG, Lock dhtMu, Lock nodeInfoMu, Aggregate], effects = []\<rparr>,
        \<lparr>func = dhtPing [1] [], pc = Acts [], effects = [Sleep 0, Invoke (DHTPing [1] [])]\<rparr>,
        \<lparr>func = nodeInfo [1] [], pc = N_Dedup, effects = []\<rparr>,
        \<lparr>func = dhtPing [1] [9], pc = Acts [], effects = []\<rparr>],
     stdout = [], written = None, panicked = False\<rparr>"
proof -
  let ?s = "exec demo_cfg seed_echoed (init demo_cfg)"
  have h: "?s = exec demo_cfg seed_echoed (init demo_cfg) \<and>
    3 < length (goroutines ?s) \<and>
    func (goroutines ?s ! 3) = dhtPing [1] [9] \<and>
    pc (goroutines ?s ! 3) = D_Dedup \<and>
    dhtPing_dedup (node ?s) [1]"
    unfolding seed_echoed_state by code_simp
  have g: "\<not> dhtMutex (node ?s) \<and> tid (ok_ev 3 []) = 3 \<and> tid (ok_ev 3 []) = 3"
    unfolding seed_echoed_state by (simp add: ok_ev_def)
  note t = found_identity_returns_at_dedup[of ?s demo_cfg seed_echoed 3 "[1]" "[9]" "ok_ev 3 []" "ok_ev 3 []"
      "node ?s" "[]"]
  from t h g have "exec demo_cfg [ok_ev 3 [], ok_ev 3 []] ?s =
         ?s\<lparr>node := (node ?s)\<lparr>dhtWaitGroup := dhtWaitGroup (node ?s) - 1\<rparr>,
           goroutines := (goroutines ?s)[3 := (goroutines ?s ! 3)\<lparr>pc := Acts []\<rparr>]\<rparr>"
    by blast
  then show ?thesis unfolding seed_echoed_state by simp
qed

text \<open>
  C7. In the command: take any state of any run in which a goroutine of
  \<open>dhtPing(pubkey, coords)\<close> stands before its retry loop. After its step through the
  loop and any steps of other goroutines, it stands before the record update with the
  reply and the error of its last attempt, and every remote call it has made was made with
  \<open>coords\<close>. Its next step, with the mutex free, writes the map exactly when the probe
  succeeded or the stored record was not found, and the record then stored under the key
  holds \<open>coords\<close>, the coordinates of the call, and the flag \<open>err == nil\<close> of the probe;
  otherwise the map is unchanged. In \<open>crawler.go\<close> the write is made on the same
  condition, but the record stored holds the coordinates of the last reply, with the same
  flag.
\<close>

theorem stored_record_of_a_probe:
  "(s = exec cfg evs (init cfg) \<and>
    t < length (goroutines s) \<and>
    func (goroutines s ! t) = dhtPing pubkey coords \<and>
    pc (goroutines s ! t) = D_Retry \<and>
    tid ev1 = t \<and> (\<forall>e \<in> set mid. tid e \<noteq> t) \<and> tid ev2 = t \<and>
    s2 = exec cfg (ev1 # mid) s \<and>
    \<not> dhtMutex (node s2)
    \<longrightarrow>
    (let r = fst (dhtPing_retry cfg ev1 pubkey coords);
         key = hex_EncodeToString pubkey;
         info = \<lparr>NodeID = NodeID_String cfg pubkey, IPv6Addr = Addr_String cfg pubkey,
                 IPv6Subnet = Subnet_String cfg pubkey, Coords = coords, Found = (snd r = None)\<rparr>;
         oldInfo = map_index zero_attempt (dhtVisited (node s2)) key;
         s3 = step cfg ev2 s2
     in pc (goroutines s2 ! t) = D_Update (fst r) (snd r) \<and>
        effects (goroutines s2 ! t) = effects (goroutines s ! t) @ snd (dhtPing_retry cfg ev1 pubkey coords) \<and>
        dhtVisited (node s3) =
          (if snd r = None \<or> \<not> Found oldInfo then AList.update key info (dhtVisited (node s2))
           else dhtVisited (node s2)) \<and>
        (snd r = None \<or> \<not> Found oldInfo \<longrightarrow> map_of (dhtVisited (node s3)) key = Some info))) \<and>
   (\<forall>c. Invoke c \<in> set (snd (dhtPing_retry cfg ev pubkey coords)) \<longrightarrow> c = DHTPing pubkey coords) \<and>
   (let r = fst (crawler_dhtPing_retry bits ev pubkey coords);
        k = count_list (snd (crawler_dhtPing_retry bits ev pubkey coords)) (Invoke (DHTPing pubkey coords));
        info = \<lparr>crawler_coords = res_Coords (fst r), crawler_found = (snd r = None)\<rparr>;
        oldInfo = map_index crawler_zero_attempt visited pubkey;
        visited' = crawler_dhtPing_record bits ev pubkey coords visited
    in 0 < k \<and> r = DHTPing_reply ev (k - 1) \<and>
       visited' = (if snd r = None \<or> \<not> crawler_found oldInfo then AList.update pubkey info visited else visited) \<and>
       (snd r = None \<or> \<not> crawler_found oldInfo \<longrightarrow> map_of visited' pubkey = Some info)) \<and>
   (\<forall>c. Invoke c \<in> set (snd (crawler_dhtPing_retry bits ev pubkey coords)) \<longrightarrow> c = DHTPing pubkey coords)"
proof -
  have A: "(let r = fst (dhtPing_retry cfg ev1 pubkey coords);
         key = hex_EncodeToString pubkey;
         info = \<lparr>NodeID = NodeID_String cfg pubkey, IPv6Addr = Addr_String cfg pubkey,
                 IPv6Subnet = Subnet_String cfg pubkey, Coords = coords, Found = (snd r = None)\<rparr>;
         oldInfo = map_index zero_attempt (dhtVisited (node s2)) key;
         s3 = step cfg ev2 s2
     in pc (goroutines s2 ! t) = D_Update (fst r) (snd r) \<and>
        effects (goroutines s2 ! t) = effects (goroutines s ! t) @ snd (dhtPing_retry cfg ev1 pubkey coords) \<and>
        dhtVisited (node s3) =
          (if snd r = None \<or> \<not> Found oldInfo then AList.update key info (dhtVisited (node s2))
           else dhtVisited (node s2)) \<and>
        (snd r = None \<or> \<not> Found oldInfo \<longrightarrow> map_of (dhtVisited (node s3)) key = Some info))"
    if h: "s = exec cfg evs (init cfg)" "t < length (goroutines s)"
      "func (goroutines s ! t) = dhtPing pubkey coords" "pc (goroutines s ! t) = D_Retry"
      "tid ev1 = t" "\<forall>e \<in> set mid. tid e \<noteq> t" "tid ev2 = t"
      "s2 = exec cfg (ev1 # mid) s" "\<not> dhtMutex (node s2)"
  proof -
    let ?R = "dhtPing_retry cfg ev1 pubkey coords"
    let ?key = "hex_EncodeToString pubkey"
    let ?info = "\<lparr>NodeID = NodeID_String cfg pubkey, IPv6Addr = Addr_String cfg pubkey,
                 IPv6Subnet = Subnet_String cfg pubkey, Coords = coords, Found = (snd (fst ?R) = None)\<rparr>"
    let ?old = "map_index zero_attempt (dhtVisited (node s2)) ?key"
    have i: "dhtPing_info cfg pubkey coords (snd (fst ?R)) = ?info" by (simp add: dhtPing_info_def)
    have c: "core cfg s" unfolding h(1) by (rule core_reachable)
    then have np: "\<not> panicked s" by (simp add: core_def)
    have c2: "core cfg s2" unfolding h(8) h(1) exec_append[symmetric] by (rule core_reachable)
    then have np2: "\<not> panicked s2" by (simp add: core_def)
    let ?s1 = "step cfg ev1 s"
    have s1: "?s1 = set_pc t (D_Update (fst (fst ?R)) (snd (fst ?R))) (add_effects t (snd ?R) s)"
      using step_d_retry[of s ev1 pubkey coords cfg] np h(2,3,4) unfolding h(5) by simp
    have l1: "t < length (goroutines ?s1)" unfolding s1 using h(2) by simp
    have g1: "goroutines ?s1 ! t = (goroutines s ! t)\<lparr>effects := effects (goroutines s ! t) @ snd ?R,
                 pc := D_Update (fst (fst ?R)) (snd (fst ?R))\<rparr>"
      unfolding s1 using h(2) by simp
    have s2: "s2 = exec cfg mid ?s1" unfolding h(8) by simp
    from others_keep[OF l1 h(6), of cfg]
    have l2: "t < length (goroutines s2)" and g2: "goroutines s2 ! t = goroutines ?s1 ! t"
      unfolding s2 by simp_all
    have pc2: "pc (goroutines s2 ! t) = D_Update (fst (fst ?R)) (snd (fst ?R))" unfolding g2 g1 by simp
    have f2: "func (goroutines s2 ! t) = dhtPing pubkey coords" unfolding g2 g1 using h(3) by simp
    have e2: "effects (goroutines s2 ! t) = effects (goroutines s ! t) @ snd ?R" unfolding g2 g1 by simp
    have "step cfg ev2 s2 = set_pc (tid ev2)
              (Acts (dhtPing_rest ?old (dhtPing_info cfg pubkey coords (snd (fst ?R))) pubkey coords (fst (fst ?R))))
              (s2\<lparr>node := (node s2)\<lparr>dhtMutex := True,
                     dhtVisited := dhtPing_write ?key (dhtPing_info cfg pubkey coords (snd (fst ?R))) (dhtVisited (node s2))\<rparr>\<rparr>)"
      by (rule step_d_update) (use np2 l2 f2 pc2 h(7,9) in simp_all)
    then have v3: "dhtVisited (node (step cfg ev2 s2)) = dhtPing_write ?key ?info (dhtVisited (node s2))"
      unfolding i by simp
    have w: "dhtPing_write ?key ?info (dhtVisited (node s2)) =
          (if snd (fst ?R) = None \<or> \<not> Found ?old then AList.update ?key ?info (dhtVisited (node s2))
           else dhtVisited (node s2))"
      by (simp add: dhtPing_write_def)
    have m: "map_of (dhtVisited (node (step cfg ev2 s2))) ?key = Some ?info" if "snd (fst ?R) = None \<or> \<not> Found ?old"
      unfolding v3 using that dhtPing_write_overwrites[of ?key ?info "dhtVisited (node s2)"] by simp
    show ?thesis unfolding Let_def using pc2 e2 v3 w m by simp
  qed
  have B: "\<forall>c. Invoke c \<in> set (snd (dhtPing_retry cfg ev pubkey coords)) \<longrightarrow> c = DHTPing pubkey coords"
    unfolding dhtPing_retry_def using retry_invokes by blast
  have D: "\<forall>c. Invoke c \<in> set (snd (crawler_dhtPing_retry bits ev pubkey coords)) \<longrightarrow> c = DHTPing pubkey coords"
    unfolding crawler_dhtPing_retry_def using retry_invokes by blast
  have C: "(let r = fst (crawler_dhtPing_retry bits ev pubkey coords);
        k = count_list (snd (crawler_dhtPing_retry bits ev pubkey coords)) (Invoke (DHTPing pubkey coords));
        info = \<lparr>crawler_coords = res_Coords (fst r), crawler_found = (snd r = None)\<rparr>;
        oldInfo = map_index crawler_zero_attempt visited pubkey;
        visited' = crawler_dhtPing_record bits ev pubkey coords visited
    in 0 < k \<and> r = DHTPing_reply ev (k - 1) \<and>
       visited' = (if snd r = None \<or> \<not> crawler_found oldInfo then AList.update pubkey info visited else visited) \<and>
       (snd r = None \<or> \<not> crawler_found oldInfo \<longrightarrow> map_of visited' pubkey = Some info))"
  proof -
    let ?R = "crawler_dhtPing_retry bits ev pubkey coords"
    let ?info = "\<lparr>crawler_coords = res_Coords (fst (fst ?R)), crawler_found = (snd (fst ?R) = None)\<rparr>"
    let ?old = "map_index crawler_zero_attempt visited pubkey"
    have i: "crawler_dhtPing_info (fst (fst ?R)) (snd (fst ?R)) = ?info" by (simp add: crawler_dhtPing_info_def)
    have r: "crawler_dhtPing_record bits ev pubkey coords visited = crawler_dhtPing_write pubkey ?info visited"
      by (simp add: crawler_dhtPing_record_def case_prod_beta i)
    have w: "crawler_dhtPing_write pubkey ?info visited =
          (if snd (fst ?R) = None \<or> \<not> crawler_found ?old then AList.update pubkey ?info visited else visited)"
      by (simp add: crawler_dhtPing_write_def)
    have m: "map_of (crawler_dhtPing_record bits ev pubkey coords visited) pubkey = Some ?info"
      if "snd (fst ?R) = None \<or> \<not> crawler_found ?old"
      unfolding r using that crawler_write_overwrites[of pubkey ?info visited] by simp
    show ?thesis unfolding Let_def using crawler_retry_last[of bits ev pubkey coords] r w m by simp
  qed
  show ?thesis using A B C D by blast
qed

theorem stored_record_of_a_probe_witness:
  "dhtVisited (node (step demo_cfg (ok_ev 1 [])
      (exec demo_cfg [ok_ev 1 [rumour], ok_ev 0 []]
         (exec demo_cfg (map (\<lambda>t. ok_ev t []) [0, 0, 1]) (init demo_cfg))))) =
     [(''01'', found_attempt [])] \<and>
   fst (dhtPing_retry demo_cfg (ok_ev 1 [rumour]) [1] []) = (\<lparr>res_Coords = [7], Infos = [rumour]\<rparr>, None)"
proof -
  let ?evs = "map (\<lambda>t. ok_ev t []) [0, 0, 1]"
  let ?s = "exec demo_cfg ?evs (init demo_cfg)"
  let ?s2 = "exec demo_cfg [ok_ev 1 [rumour], ok_ev 0 []] ?s"
  have r: "fst (dhtPing_retry demo_cfg (ok_ev 1 [rumour]) [1] []) = (\<lparr>res_Coords = [7], Infos = [rumour]\<rparr>, None)"
    by code_simp
  have h: "?s = exec demo_cfg ?evs (init demo_cfg) \<and>
    1 < length (goroutines ?s) \<and>
    func (goroutines ?s ! 1) = dhtPing [1] [] \<and>
    pc (goroutines ?s ! 1) = D_Retry \<and>
    tid (ok_ev 1 [rumour]) = 1 \<and> (\<forall>e \<in> set [ok_ev 0 []]. tid e \<noteq> 1) \<and> tid (ok_ev 1 []) = 1 \<and>
    ?s2 = exec demo_cfg (ok_ev 1 [rumour] # [ok_ev 0 []]) ?s \<and>
    \<not> dhtMutex (node ?s2)"
    unfolding seed_after_retry_state unfolding seed_at_retry_state
    by (simp add: ok_ev_def)
  note t = stored_record_of_a_probe[of ?s demo_cfg ?evs 1 "[1]" "[]" "ok_ev 1 [rumour]" "[ok_ev 0 []]" "ok_ev 1 []" ?s2
      "ok_ev 1 []" 64 "[]"]
  from t h have "(let r = fst (dhtPing_retry demo_cfg (ok_ev 1 [rumour]) [1] []);
         key = hex_EncodeToString [1];
         info = \<lparr>NodeID = NodeID_String demo_cfg [1], IPv6Addr = Addr_String demo_cfg [1],
                 IPv6Subnet = Subnet_String demo_cfg [1], Coords = [], Found = (snd r = None)\<rparr>;
         oldInfo = map_index zero_attempt (dhtVisited (node ?s2)) key;
         s3 = step demo_cfg (ok_ev 1 []) ?s2
     in pc (goroutines ?s2 ! 1) = D_Update (fst r) (snd r) \<and>
        effects (goroutines ?s2 ! 1) = effects (goroutines ?s ! 1) @ snd (dhtPing_retry demo_cfg (ok_ev 1 [rumour]) [1] []) \<and>
        dhtVisited (node s3) =
          (if snd r = None \<or> \<not> Found oldInfo then AList.update key info (dhtVisited (node ?s2))
           else dhtVisited (node ?s2)) \<and>
        (snd r = None \<or> \<not> Found oldInfo \<longrightarrow> map_of (dhtVisited (node s3)) key = Some info))"
    by blast
  then have "dhtVisited (node (step demo_cfg (ok_ev 1 []) ?s2)) =
          (if snd (fst (dhtPing_retry demo_cfg (ok_ev 1 [rumour]) [1] [])) = None \<or>
              \<not> Found (map_index zero_attempt (dhtVisited (node ?s2)) (hex_EncodeToString [1]))
           then AList.update (hex_EncodeToString [1])
                  \<lparr>NodeID = NodeID_String demo_cfg [1], IPv6Addr = Addr_String demo_cfg [1],
                   IPv6Subnet = Subnet_String demo_cfg [1], Coords = [],
                   Found = (snd (fst (dhtPing_retry demo_cfg (ok_ev 1 [rumour]) [1] [])) = None)\<rparr>
                  (dhtVisited (node ?s2))
           else dhtVisited (node ?s2))"
    unfolding Let_def by blast
  also have "\<dots> = [(''01'', found_attempt [])]"
    unfolding r unfolding seed_after_retry_state by code_simp
  finally show ?thesis using r by simp
qed

text \<open>
  In \<open>crawler.go\<close>, a call with the coordinates \<open>[5]\<close> whose probe is answered from the
  coordinates \<open>[7]\<close> stores \<open>[7]\<close>, and a call whose five probes all fail stores the
  empty coordinates of the zero reply: in neither case the coordinates the probe was sent
  with.
\<close>

theorem crawler_stores_the_coordinates_of_the_reply:
  "snd (crawler_dhtPing_retry 64 (ok_ev 1 []) [1] [5]) = [Sleep 0, Invoke (DHTPing [1] [5])] \<and>
   map_of (crawler_dhtPing_record 64 (ok_ev 1 []) [1] [5] []) [1] =
     Some \<lparr>crawler_coords = [7], crawler_found = True\<rparr> \<and>
   count_list (snd (crawler_dhtPing_retry 64 (fail_ev 1) [1] [5])) (Invoke (DHTPing [1] [5])) = 5 \<and>
   map_of (crawler_dhtPing_record 64 (fail_ev 1) [1] [5] []) [1] =
     Some \<lparr>crawler_coords = [], crawler_found = False\<rparr>"
proof -
  have 1: "snd (crawler_dhtPing_retry 64 (ok_ev 1 []) [1] [5]) = [Sleep 0, Invoke (DHTPing [1] [5])]"
    by code_simp
  have 2: "map_of (crawler_dhtPing_record 64 (ok_ev 1 []) [1] [5] []) [1] =
     Some \<lparr>crawler_coords = [7], crawler_found = True\<rparr>"
    by code_simp
  have 3: "count_list (snd (crawler_dhtPing_retry 64 (fail_ev 1) [1] [5])) (Invoke (DHTPing [1] [5])) = 5"
    by code_simp
  have 4: "map_of (crawler_dhtPing_record 64 (fail_ev 1) [1] [5] []) [1] =
     Some \<lparr>crawler_coords = [], crawler_found = False\<rparr>"
    by code_simp
  show ?thesis using 1 2 3 4 by (intro conjI)
qed

text \<open>
  C8. Take any state of any run and a goroutine of \<open>nodeInfo\<close> whose next step fails:
  it stands before its retry loop and the loop ends with an error, or it stands before
  its store, with the mutex free, and \<open>json.Unmarshal\<close> rejects the payload. In the first
  case the loop has made exactly \<open>retryCount\<close> calls, and the step changes nothing but the
  goroutine itself, which goes to its deferred \<open>Done\<close>: nothing is stored and nothing is
  printed. In the second case the step takes the mutex and prints the error, and changes
  nothing else. In both cases neither map is changed, nothing is written to the file, the
  key is absent from the metadata map after the step and in every later state of the run,
  and the discovery record of the key is found and stays so.
\<close>

theorem failed_metadata_fetch_leaves_no_record:
  "(s = exec cfg evs (init cfg) \<and> t < length (goroutines s) \<and>
    func (goroutines s ! t) = nodeInfo pubkey coords \<and> tid ev = t \<and>
    pc (goroutines s ! t) = N_Retry \<and> snd (fst (nodeInfo_retry cfg ev pubkey coords)) \<noteq> None
    \<longrightarrow>
    step cfg ev s =
      set_pc t (Acts [WG_Done nodeInfoWG]) (add_effects t (snd (nodeInfo_retry cfg ev pubkey coords)) s) \<and>
    int (count_list (snd (nodeInfo_retry cfg ev pubkey coords)) (Invoke (GetNodeInfo pubkey coords))) = retryCount cfg \<and>
    node (step cfg ev s) = node s \<and>
    stdout (step cfg ev s) = stdout s \<and>
    written (step cfg ev s) = written s \<and>
    (\<forall>later. \<not> map_has (nodeInfoVisited (node (exec cfg later (step cfg ev s)))) (hex_EncodeToString pubkey) \<and>
              found_in (exec cfg later (step cfg ev s)) (hex_EncodeToString pubkey))) \<and>
   (s = exec cfg evs (init cfg) \<and> t < length (goroutines s) \<and>
    func (goroutines s ! t) = nodeInfo pubkey coords \<and> tid ev = t \<and>
    pc (goroutines s ! t) = N_Store res \<and> json_Unmarshal cfg res = Inl e \<and> \<not> nodeInfoMutex (node s)
    \<longrightarrow>
    step cfg ev s =
      set_pc t (Acts [Unlock nodeInfoMu, WG_Done nodeInfoWG])
        (s\<lparr>node := (node s)\<lparr>nodeInfoMutex := True\<rparr>, stdout := stdout s @ [Text e]\<rparr>) \<and>
    dhtVisited (node (step cfg ev s)) = dhtVisited (node s) \<and>
    nodeInfoVisited (node (step cfg ev s)) = nodeInfoVisited (node s) \<and>
    stdout (step cfg ev s) = stdout s @ [Text e] \<and>
    written (step cfg ev s) = written s \<and>
    (\<forall>later. \<not> map_has (nodeInfoVisited (node (exec cfg later (step cfg ev s)))) (hex_EncodeToString pubkey) \<and>
              found_in (exec cfg later (step cfg ev s)) (hex_EncodeToString pubkey))) \<and>
   (json_Unmarshal cfg res = Inl e \<longrightarrow>
      nodeInfo_store cfg pubkey res s0 = s0\<lparr>stdout := stdout s0 @ [Text e]\<rparr>)"
proof -
  let ?key = "hex_EncodeToString pubkey"
  have A: "step cfg ev s =
      set_pc t (Acts [WG_Done nodeInfoWG]) (add_effects t (snd (nodeInfo_retry cfg ev pubkey coords)) s) \<and>
    int (count_list (snd (nodeInfo_retry cfg ev pubkey coords)) (Invoke (GetNodeInfo pubkey coords))) = retryCount cfg \<and>
    node (step cfg ev s) = node s \<and>
    stdout (step cfg ev s) = stdout s \<and>
    written (step cfg ev s) = written s \<and>
    (\<forall>later. \<not> map_has (nodeInfoVisited (node (exec cfg later (step cfg ev s)))) ?key \<and>
              found_in (exec cfg later (step cfg ev s)) ?key)"
    if h: "s = exec cfg evs (init cfg)" "t < length (goroutines s)"
      "func (goroutines s ! t) = nodeInfo pubkey coords" "tid ev = t"
      "pc (goroutines s ! t) = N_Retry" "snd (fst (nodeInfo_retry cfg ev pubkey coords)) \<noteq> None"
  proof -
    have c: "core cfg s" unfolding h(1) by (rule core_reachable)
    then have np: "\<not> panicked s" by (simp add: core_def)
    have st: "step cfg ev s =
      set_pc t (Acts [WG_Done nodeInfoWG]) (add_effects t (snd (nodeInfo_retry cfg ev pubkey coords)) s)"
      using step_n_fail[of s ev pubkey coords cfg] np h(2,3,5,6) unfolding h(4) by simp
    have k: "int (count_list (snd (nodeInfo_retry cfg ev pubkey coords)) (Invoke (GetNodeInfo pubkey coords))) = retryCount cfg"
      using h(6) unfolding nodeInfo_retry_def by (rule retry_error_exhausted)
    have n: "node (step cfg ev s) = node s" "stdout (step cfg ev s) = stdout s" "written (step cfg ev s) = written s"
      unfolding st by simp_all
    have g: "goroutines (step cfg ev s) ! t =
        (goroutines s ! t)\<lparr>effects := effects (goroutines s ! t) @ snd (nodeInfo_retry cfg ev pubkey coords),
                            pc := Acts [WG_Done nodeInfoWG]\<rparr>"
      unfolding st using h(2) by simp
    have pcn: "\<forall>as. pc (goroutines s ! t) \<noteq> Acts as" using h(5) by simp
    have "\<not> map_has (nodeInfoVisited (node (exec cfg later (step cfg ev s)))) ?key \<and>
              found_in (exec cfg later (step cfg ev s)) ?key" for later
      by (rule failed_fetch_forever[OF h(1,2,3) pcn h(4) g]) (simp_all add: h(3) n(1))
    then show ?thesis using st k n by blast
  qed
  have B: "step cfg ev s =
      set_pc t (Acts [Unlock nodeInfoMu, WG_Done nodeInfoWG])
        (s\<lparr>node := (node s)\<lparr>nodeInfoMutex := True\<rparr>, stdout := stdout s @ [Text e]\<rparr>) \<and>
    dhtVisited (node (step cfg ev s)) = dhtVisited (node s) \<and>
    nodeInfoVisited (node (step cfg ev s)) = nodeInfoVisited (node s) \<and>
    stdout (step cfg ev s) = stdout s @ [Text e] \<and>
    written (step cfg ev s) = written s \<and>
    (\<forall>later. \<not> map_has (nodeInfoVisited (node (exec cfg later (step cfg ev s)))) ?key \<and>
              found_in (exec cfg later (step cfg ev s)) ?key)"
    if h: "s = exec cfg evs (init cfg)" "t < length (goroutines s)"
      "func (goroutines s ! t) = nodeInfo pubkey coords" "tid ev = t"
      "pc (goroutines s ! t) = N_Store res" "json_Unmarshal cfg res = Inl e" "\<not> nodeInfoMutex (node s)"
  proof -
    have c: "core cfg s" unfolding h(1) by (rule core_reachable)
    then have np: "\<not> panicked s" by (simp add: core_def)
    have st: "step cfg ev s =
      set_pc t (Acts [Unlock nodeInfoMu, WG_Done nodeInfoWG])
        (s\<lparr>node := (node s)\<lparr>nodeInfoMutex := True\<rparr>, stdout := stdout s @ [Text e]\<rparr>)"
      using step_n_parse[of s ev pubkey coords res cfg e] np h(2,3,5,6,7) unfolding h(4) by simp
    have n: "dhtVisited (node (step cfg ev s)) = dhtVisited (node s)"
      "nodeInfoVisited (node (step cfg ev s)) = nodeInfoVisited (node s)"
      "stdout (step cfg ev s) = stdout s @ [Text e]" "written (step cfg ev s) = written s"
      unfolding st by simp_all
    have g: "goroutines (step cfg ev s) ! t = (goroutines s ! t)\<lparr>pc := Acts [Unlock nodeInfoMu, WG_Done nodeInfoWG]\<rparr>"
      unfolding st using h(2) by simp
    have pcn: "\<forall>as. pc (goroutines s ! t) \<noteq> Acts as" using h(5) by simp
    have "\<not> map_has (nodeInfoVisited (node (exec cfg later (step cfg ev s)))) ?key \<and>
              found_in (exec cfg later (step cfg ev s)) ?key" for later
      by (rule failed_fetch_forever[OF h(1,2,3) pcn h(4) g]) (simp_all add: h(3) n(2))
    then show ?thesis using st n by blast
  qed
  have C: "json_Unmarshal cfg res = Inl e \<longrightarrow>
      nodeInfo_store cfg pubkey res s0 = s0\<lparr>stdout := stdout s0 @ [Text e]\<rparr>"
    by (simp add: nodeInfo_store_def)
  show ?thesis using A B C by blast
qed

theorem failed_metadata_fetch_leaves_no_record_witness:
  "step demo_cfg (fail_ev 2) (exec demo_cfg seed_fetching (init demo_cfg)) =
    \<lparr>node = \<lparr>dhtWaitGroup = 0, dhtVisited = [(''01'', found_attempt [])], dhtMutex = False,
             nodeInfoWaitGroup = 1, nodeInfoVisited = [], nodeInfoMutex = False\<rparr>,
     goroutines =
       [\<lparr>func = main, pc = Acts [WG_Wait dhtWG, WG_Wait nodeInfoWG, Lock dhtMu, Lock nodeInfoMu, Aggregate], effects = []\<rparr>,
        \<lparr>func = dhtPing [1] [], pc = Acts [], effects = [Sleep 0, Invoke (DHTPing [1] [])]\<rparr>,
        \<lparr>func = nodeInfo [1] [], pc = Acts [WG_Done nodeInfoWG],
         effects = [Sleep 999000000, Invoke (GetNodeInfo [1] []), Sleep 1998000000, Invoke (GetNodeInfo [1] []),
                    Sleep 3996000000, Invoke (GetNodeInfo [1] []), Sleep 7992000000, Invoke (GetNodeInfo [1] []),
                    Sleep 15984000000, Invoke (GetNodeInfo [1] [])]\<rparr>],
     stdout = [], written = None, panicked = False\<rparr> \<and>
   step demo_cfg (ok_ev 2 []) (exec demo_cfg (seed_fetching @ [blank_ev 2]) (init demo_cfg)) =
    \<lparr>node = \<lparr>dhtWaitGroup = 0, dhtVisited = [(''01'', found_attempt [])], dhtMutex = False,
             nodeInfoWaitGroup = 1, nodeInfoVisited = [], nodeInfoMutex = True\<rparr>,
     goroutines =
       [\<lparr>func = main, pc = Acts [WG_Wait dhtWG, WG_Wait nodeInfoWG, Lock dhtMu, Lock nodeInfoMu, Aggregate], effects = []\<rparr>,
        \<lparr>func = dhtPing [1] [], pc = Acts [], effects = [Sleep 0, Invoke (DHTPing [1] [])]\<rparr>,
        \<lparr>func = nodeInfo [1] [], pc = Acts [Unlock nodeInfoMu, WG_Done nodeInfoWG],
         effects = [Sleep 0, Invoke (GetNodeInfo [1] [])]\<rparr>],
     stdout = [Text ''unexpected end of JSON input''], written = None, panicked = False\<rparr>"
proof -
  let ?s1 = "exec demo_cfg seed_fetching (init demo_cfg)"
  let ?s2 = "exec demo_cfg (seed_fetching @ [blank_ev 2]) (init demo_cfg)"
  let ?e = "''unexpected end of JSON input''"
  have f: "snd (fst (nodeInfo_retry demo_cfg (fail_ev 2) [1] [])) \<noteq> None" by code_simp
  have tr: "snd (nodeInfo_retry demo_cfg (fail_ev 2) [1] []) =
              [Sleep 999000000, Invoke (GetNodeInfo [1] []), Sleep 1998000000, Invoke (GetNodeInfo [1] []),
               Sleep 3996000000, Invoke (GetNodeInfo [1] []), Sleep 7992000000, Invoke (GetNodeInfo [1] []),
               Sleep 15984000000, Invoke (GetNodeInfo [1] [])]" by code_simp
  have u: "json_Unmarshal demo_cfg [] = Inl ?e" by (simp add: demo_cfg_def)
  have h1: "?s1 = exec demo_cfg seed_fetching (init demo_cfg) \<and> 2 < length (goroutines ?s1) \<and>
    func (goroutines ?s1 ! 2) = nodeInfo [1] [] \<and> tid (fail_ev 2) = 2 \<and>
    pc (goroutines ?s1 ! 2) = N_Retry \<and> snd (fst (nodeInfo_retry demo_cfg (fail_ev 2) [1] [])) \<noteq> None"
    using f unfolding seed_fetching_state by (simp add: fail_ev_def)
  have h2: "?s2 = exec demo_cfg (seed_fetching @ [blank_ev 2]) (init demo_cfg) \<and> 2 < length (goroutines ?s2) \<and>
    func (goroutines ?s2 ! 2) = nodeInfo [1] [] \<and> tid (ok_ev 2 []) = 2 \<and>
    pc (goroutines ?s2 ! 2) = N_Store [] \<and> json_Unmarshal demo_cfg [] = Inl ?e \<and> \<not> nodeInfoMutex (node ?s2)"
    using u unfolding seed_fetched_blank_state by (simp add: ok_ev_def)
  note t1 = failed_metadata_fetch_leaves_no_record[of ?s1 demo_cfg seed_fetching 2 "[1]" "[]" "fail_ev 2" "[]" ?e ?s1]
  note t2 = failed_metadata_fetch_leaves_no_record[of ?s2 demo_cfg "seed_fetching @ [blank_ev 2]" 2 "[1]" "[]" "ok_ev 2 []" "[]" ?e ?s2]
  from t1 h1 have "step demo_cfg (fail_ev 2) ?s1 =
      set_pc 2 (Acts [WG_Done nodeInfoWG]) (add_effects 2 (snd (nodeInfo_retry demo_cfg (fail_ev 2) [1] [])) ?s1)"
    by blast
  then have a: "step demo_cfg (fail_ev 2) ?s1 =
    \<lparr>node = \<lparr>dhtWaitGroup = 0, dhtVisited = [(''01'', found_attempt [])], dhtMutex = False,
             nodeInfoWaitGroup = 1, nodeInfoVisited = [], nodeInfoMutex = False\<rparr>,
     goroutines =
       [\<lparr>func = main, pc = Acts [WG_Wait dhtWG, WG_Wait nodeInfoWG, Lock dhtMu, Lock nodeInfoMu, Aggregate], effects = []\<rparr>,
        \<lparr>func = dhtPing [1] [], pc = Acts [], effects = [Sleep 0, Invoke (DHTPing [1] [])]\<rparr>,
        \<lparr>func = nodeInfo [1] [], pc = Acts [WG_Done nodeInfoWG],
         effects = [Sleep 999000000, Invoke (GetNodeInfo [1] []), Sleep 1998000000, Invoke (GetNodeInfo [1] []),
                    Sleep 3996000000, Invoke (GetNodeInfo [1] []), Sleep 7992000000, Invoke (GetNodeInfo [1] []),
                    Sleep 15984000000, Invoke (GetNodeInfo [1] [])]\<rparr>],
     stdout = [], written = None, panicked = False\<rparr>"
    unfolding tr unfolding seed_fetching_state by (simp add: set_pc_def add_effects_def)
  from t2 h2 have "step demo_cfg (ok_ev 2 []) ?s2 =
      set_pc 2 (Acts [Unlock nodeInfoMu, WG_Done nodeInfoWG])
        (?s2\<lparr>node := (node ?s2)\<lparr>nodeInfoMutex := True\<rparr>, stdout := stdout ?s2 @ [Text ?e]\<rparr>)"
    by blast
  then have b: "step demo_cfg (ok_ev 2 []) ?s2 =
    \<lparr>node = \<lparr>dhtWaitGroup = 0, dhtVisited = [(''01'', found_attempt [])], dhtMutex = False,
             nodeInfoWaitGroup = 1, nodeInfoVisited = [], nodeInfoMutex = True\<rparr>,
     goroutines =
       [\<lparr>func = main, pc = Acts [WG_Wait dhtWG, WG_Wait nodeInfoWG, Lock dhtMu, Lock nodeInfoMu, Aggregate], effects = []\<rparr>,
        \<lparr>func = dhtPing [1] [], pc = Acts [], effects = [Sleep 0, Invoke (DHTPing [1] [])]\<rparr>,
        \<lparr>func = nodeInfo [1] [], pc = Acts [Unlock nodeInfoMu, WG_Done nodeInfoWG],
         effects = [Sleep 0, Invoke (GetNodeInfo [1] [])]\<rparr>],
     stdout = [Text ''unexpected end of JSON input''], written = None, panicked = False\<rparr>"
    unfolding seed_fetched_blank_state by (simp add: set_pc_def)
  show ?thesis using a b by (intro conjI)
qed

text \<open>
  C9. In every state of every run: no wait-group counter has gone negative and no mutex
  was unlocked twice; each counter equals the outstanding work of its phase, that is the
  goroutines of the phase that were started and have not returned, plus the goroutines
  about to execute a \<open>go\<close> statement of the phase whose \<open>Add(1)\<close> is done (so a task
  is counted from its \<open>Add\<close>, before it is scheduled, until it returns by whatever
  path). Once \<open>main\<close> is past its wait on the discovery counter, no discovery goroutine
  is running or being started; once it is past its wait on the metadata counter, every
  other goroutine has returned. A step that increments the metadata counter is a step of
  a discovery goroutine that has not returned, so the discovery counter is at least 1
  then. In the statements of \<open>dhtPing\<close> and \<open>main\<close> every \<open>go\<close> stands directly
  after the \<open>Add(1)\<close> of its wait group, and \<open>dhtPing\<close> ends with its \<open>Done\<close>.
\<close>

theorem wait_groups_count_outstanding_work:
  "\<not> panicked (exec cfg evs (init cfg)) \<and>
   dhtWaitGroup (node (exec cfg evs (init cfg))) = int (outstanding dhtWG (exec cfg evs (init cfg))) \<and>
   nodeInfoWaitGroup (node (exec cfg evs (init cfg))) = int (outstanding nodeInfoWG (exec cfg evs (init cfg))) \<and>
   (WG_Wait dhtWG \<notin> set (acts (goroutines (exec cfg evs (init cfg)) ! 0)) \<longrightarrow>
      (\<forall>g \<in> set (goroutines (exec cfg evs (init cfg))). \<not> running dhtWG g \<and> \<not> spawning dhtWG g)) \<and>
   (WG_Wait nodeInfoWG \<notin> set (acts (goroutines (exec cfg evs (init cfg)) ! 0)) \<longrightarrow>
      (\<forall>t. 0 < t \<and> t < length (goroutines (exec cfg evs (init cfg))) \<longrightarrow>
           returned (goroutines (exec cfg evs (init cfg)) ! t))) \<and>
   (nodeInfoWaitGroup (node (exec cfg evs (init cfg))) < nodeInfoWaitGroup (node (step cfg ev (exec cfg evs (init cfg)))) \<longrightarrow>
      tid ev < length (goroutines (exec cfg evs (init cfg))) \<and>
      (\<exists>p x. func (goroutines (exec cfg evs (init cfg)) ! tid ev) = dhtPing p x) \<and>
      running dhtWG (goroutines (exec cfg evs (init cfg)) ! tid ev) \<and>
      1 \<le> dhtWaitGroup (node (exec cfg evs (init cfg)))) \<and>
   paired (dhtPing_rest oldInfo info pubkey coords res) \<and>
   last (dhtPing_rest oldInfo info pubkey coords res) = WG_Done dhtWG \<and>
   paired (main_body cfg)"
proof -
  let ?s = "exec cfg evs (init cfg)"
  have i: "inv cfg ?s" by (rule inv_reachable)
  then have c: "core cfg ?s" by (simp add: inv_def)
  have 1: "\<not> panicked ?s" using c by (simp add: core_def)
  have 2: "dhtWaitGroup (node ?s) = int (outstanding dhtWG ?s)"
    using counter_outstanding[OF c, of dhtWG] by simp
  have 3: "nodeInfoWaitGroup (node ?s) = int (outstanding nodeInfoWG ?s)"
    using counter_outstanding[OF c, of nodeInfoWG] by simp
  have 4: "WG_Wait dhtWG \<notin> set (acts (goroutines ?s ! 0)) \<longrightarrow>
      (\<forall>g \<in> set (goroutines ?s). \<not> running dhtWG g \<and> \<not> spawning dhtWG g)"
    using drained_dht[OF i] by blast
  have 5: "WG_Wait nodeInfoWG \<notin> set (acts (goroutines ?s ! 0)) \<longrightarrow>
      (\<forall>t. 0 < t \<and> t < length (goroutines ?s) \<longrightarrow> returned (goroutines ?s ! t))"
    using drained_all[OF i] by blast
  have 6: "nodeInfoWaitGroup (node ?s) < nodeInfoWaitGroup (node (step cfg ev ?s)) \<longrightarrow>
      tid ev < length (goroutines ?s) \<and> (\<exists>p x. func (goroutines ?s ! tid ev) = dhtPing p x) \<and>
      running dhtWG (goroutines ?s ! tid ev) \<and> 1 \<le> dhtWaitGroup (node ?s)"
    using nodeInfo_increment[OF c] by blast
  show ?thesis
    using 1 2 3 4 5 6 paired_rest paired_main last_rest by blast
qed

theorem wait_groups_count_outstanding_work_witness:
  "\<not> panicked (exec demo_cfg whole_run (init demo_cfg)) \<and>
   WG_Wait dhtWG \<notin> set (acts (goroutines (exec demo_cfg whole_run (init demo_cfg)) ! 0)) \<and>
   WG_Wait nodeInfoWG \<notin> set (acts (goroutines (exec demo_cfg whole_run (init demo_cfg)) ! 0)) \<and>
   outstanding dhtWG (exec demo_cfg whole_run (init demo_cfg)) = 0 \<and>
   outstanding nodeInfoWG (exec demo_cfg whole_run (init demo_cfg)) = 0 \<and>
   returned (goroutines (exec demo_cfg whole_run (init demo_cfg)) ! 1) \<and>
   returned (goroutines (exec demo_cfg whole_run (init demo_cfg)) ! 2) \<and>
   nodeInfoWaitGroup (node (exec demo_cfg (take 5 seed_found) (init demo_cfg)))
     < nodeInfoWaitGroup (node (step demo_cfg (ok_ev 1 []) (exec demo_cfg (take 5 seed_found) (init demo_cfg)))) \<and>
   func (goroutines (exec demo_cfg (take 5 seed_found) (init demo_cfg)) ! 1) = dhtPing [1] [] \<and>
   running dhtWG (goroutines (exec demo_cfg (take 5 seed_found) (init demo_cfg)) ! 1) \<and>
   dhtWaitGroup (node (exec demo_cfg (take 5 seed_found) (init demo_cfg))) = 1 \<and>
   outstanding dhtWG (exec demo_cfg (take 5 seed_found) (init demo_cfg)) = 1"
proof -
  have a: "WG_Wait dhtWG \<notin> set (acts (goroutines (exec demo_cfg whole_run (init demo_cfg)) ! 0))"
    "WG_Wait nodeInfoWG \<notin> set (acts (goroutines (exec demo_cfg whole_run (init demo_cfg)) ! 0))"
    "length (goroutines (exec demo_cfg whole_run (init demo_cfg))) = 3"
    "dhtWaitGroup (node (exec demo_cfg whole_run (init demo_cfg))) = 0"
    "nodeInfoWaitGroup (node (exec demo_cfg whole_run (init demo_cfg))) = 0"
    unfolding whole_run_state by (simp_all add: acts_def)
  have b: "nodeInfoWaitGroup (node (exec demo_cfg (take 5 seed_found) (init demo_cfg)))
     < nodeInfoWaitGroup (node (step demo_cfg (ok_ev 1 []) (exec demo_cfg (take 5 seed_found) (init demo_cfg))))"
    "func (goroutines (exec demo_cfg (take 5 seed_found) (init demo_cfg)) ! 1) = dhtPing [1] []"
    "dhtWaitGroup (node (exec demo_cfg (take 5 seed_found) (init demo_cfg))) = 1"
    unfolding before_fetch_state
    by (simp_all add: step_def ok_ev_def set_pc_def set_counter_def counter_def)
  from a b
    wait_groups_count_outstanding_work[of demo_cfg whole_run "ok_ev 1 []" zero_attempt zero_attempt "[]" "[]" zero_DHTRes]
    wait_groups_count_outstanding_work[of demo_cfg "take 5 seed_found" "ok_ev 1 []" zero_attempt zero_attempt "[]" "[]" zero_DHTRes]
  show ?thesis by (simp add: ok_ev_def)
qed

text \<open>
  C10. The last two lines of the summary, labelled as the counts of nodeinfo responses,
  print \<open>Meta.NodesSuccessful\<close> and \<open>Meta.NodesFailed\<close>, the counts of the discovery
  phase; the fields \<open>nodeinfo_successful\<close> and \<open>nodeinfo_failed\<close> of the results hold
  the size of the metadata map and the number of found nodes minus that size. When
  \<open>main\<close> has returned, the output ends with this summary of the results of the maps,
  and the document written is these results.
\<close>

theorem summary_prints_discovery_counts_as_nodeinfo:
  "summary res ! 5 = Count (NodesSuccessful (Meta res)) ''nodes responded with nodeinfo'' \<and>
   summary res ! 6 = Count (NodesFailed (Meta res)) ''nodes did not respond with nodeinfo'' \<and>
   summary (make_results n) =
     [Blank,
      Count (len (dhtVisited n)) ''nodes were processed'',
      Count (count_found (dhtVisited n)) ''nodes were found'',
      Count (len (dhtVisited n) - count_found (dhtVisited n)) ''nodes were not found'',
      Blank,
      Count (count_found (dhtVisited n)) ''nodes responded with nodeinfo'',
      Count (len (dhtVisited n) - count_found (dhtVisited n)) ''nodes did not respond with nodeinfo''] \<and>
   NodeInfoSuccessful (Meta (make_results n)) = len (nodeInfoVisited n) \<and>
   NodeInfoFailed (Meta (make_results n)) = count_found (dhtVisited n) - len (nodeInfoVisited n) \<and>
   (returned (goroutines (exec cfg evs (init cfg)) ! 0) \<longrightarrow>
      (\<exists>out. stdout (exec cfg evs (init cfg)) = out @ summary (make_results (node (exec cfg evs (init cfg))))) \<and>
      (written (exec cfg evs (init cfg)) = None \<or>
       written (exec cfg evs (init cfg)) = Some (make_results (node (exec cfg evs (init cfg))))))"
proof -
  have 1: "summary res ! 5 = Count (NodesSuccessful (Meta res)) ''nodes responded with nodeinfo''"
    "summary res ! 6 = Count (NodesFailed (Meta res)) ''nodes did not respond with nodeinfo''"
    by (simp_all add: summary_def)
  have 2: "summary (make_results n) =
     [Blank,
      Count (len (dhtVisited n)) ''nodes were processed'',
      Count (count_found (dhtVisited n)) ''nodes were found'',
      Count (len (dhtVisited n) - count_found (dhtVisited n)) ''nodes were not found'',
      Blank,
      Count (count_found (dhtVisited n)) ''nodes responded with nodeinfo'',
      Count (len (dhtVisited n) - count_found (dhtVisited n)) ''nodes did not respond with nodeinfo'']"
    by (simp add: summary_def make_results_fields)
  have 3: "NodeInfoSuccessful (Meta (make_results n)) = len (nodeInfoVisited n)"
    "NodeInfoFailed (Meta (make_results n)) = count_found (dhtVisited n) - len (nodeInfoVisited n)"
    by (simp_all add: make_results_fields)
  have 4: "returned (goroutines (exec cfg evs (init cfg)) ! 0) \<longrightarrow>
      (\<exists>out. stdout (exec cfg evs (init cfg)) = out @ summary (make_results (node (exec cfg evs (init cfg))))) \<and>
      (written (exec cfg evs (init cfg)) = None \<or>
       written (exec cfg evs (init cfg)) = Some (make_results (node (exec cfg evs (init cfg)))))"
    using final_reachable[of cfg evs] unfolding final_def by blast
  show ?thesis using 1 2 3 4 by (intro conjI)
qed

theorem summary_prints_discovery_counts_as_nodeinfo_witness:
  "returned (goroutines (exec demo_cfg run_without_metadata (init demo_cfg)) ! 0) \<and>
   (\<exists>out. stdout (exec demo_cfg run_without_metadata (init demo_cfg)) =
      out @ summary (make_results (node (exec demo_cfg run_without_metadata (init demo_cfg))))) \<and>
   summary (make_results (node (exec demo_cfg run_without_metadata (init demo_cfg)))) ! 5 =
     Count 1 ''nodes responded with nodeinfo'' \<and>
   summary (make_results (node (exec demo_cfg run_without_metadata (init demo_cfg)))) ! 6 =
     Count 0 ''nodes did not respond with nodeinfo'' \<and>
   NodeInfoSuccessful (Meta (make_results (node (exec demo_cfg run_without_metadata (init demo_cfg))))) = 0 \<and>
   NodeInfoFailed (Meta (make_results (node (exec demo_cfg run_without_metadata (init demo_cfg))))) = 1"
proof -
  have a: "returned (goroutines (exec demo_cfg run_without_metadata (init demo_cfg)) ! 0)"
    "Meta (make_results (node (exec demo_cfg run_without_metadata (init demo_cfg)))) =
     \<lparr>NodesAttempted = 1, NodesSuccessful = 1, NodesFailed = 0, NodeInfoSuccessful = 0, NodeInfoFailed = 1\<rparr>"
    unfolding run_without_metadata_state
    by (simp_all add: returned_def make_results_def Let_def len_def count_found_def found_attempt_def)
  note t = summary_prints_discovery_counts_as_nodeinfo[of
      "make_results (node (exec demo_cfg run_without_metadata (init demo_cfg)))"
      "node (exec demo_cfg run_without_metadata (init demo_cfg))" demo_cfg run_without_metadata]
  have o: "\<exists>out. stdout (exec demo_cfg run_without_metadata (init demo_cfg)) =
      out @ summary (make_results (node (exec demo_cfg run_without_metadata (init demo_cfg))))"
    using t a(1) by blast
  have l5: "summary (make_results (node (exec demo_cfg run_without_metadata (init demo_cfg)))) ! 5 =
     Count 1 ''nodes responded with nodeinfo''"
    using conjunct1[OF t] a(2) by simp
  have l6: "summary (make_results (node (exec demo_cfg run_without_metadata (init demo_cfg)))) ! 6 =
     Count 0 ''nodes did not respond with nodeinfo''"
    using conjunct1[OF conjunct2[OF t]] a(2) by simp
  show ?thesis using a(1) o l5 l6 a(2) by simp
qed

end
